theory Spec2Isabelle
  imports Main "HOL-Library.Word"
begin

section \<open>A generic hash table with ordered collision chains and duplicate chains\<close>

text \<open>
  This theory embeds \<^verbatim>\<open>hash_table.c\<close> and \<^verbatim>\<open>hash_table.h\<close>. The C code builds a
  two-level linked structure: every slot of the bucket array points to a bucket node, the
  bucket node to a chain of fill nodes (one per distinct key, linked by \<^verbatim>\<open>next_fill\<close>),
  and every fill node to a chain of duplicate nodes (linked by \<^verbatim>\<open>next_duplicate\<close>).
  The nodes live in an explicit store, one partial map per node type, and pointers are
  addresses: \<open>None\<close> is \<^verbatim>\<open>NULL\<close>.

  Modelling choices:
  \<^item> \<^verbatim>\<open>unsigned long\<close> is a 64-bit word (the LP64 data model), so counters and sizes wrap
    as in C; the sizes of the structs are those of LP64.
  \<^item> A payload \<^verbatim>\<open>void *\<close> that the code requires to be non-null (\<^verbatim>\<open>assert(object != NULL)\<close>)
    is a value of the type variable \<open>'o\<close>; a payload pointer that may be null (an entry of
    the array returned by a lookup) is an \<open>'o option\<close>.
  \<^item> \<^verbatim>\<open>calloc\<close> either fails or returns a fresh address. Whether the k-th call may succeed
    is read from an oracle stored in the memory, and a call succeeds only if the bytes in
    use still fit into the 64-bit address space.
  \<^item> A computation that dereferences an unallocated address or indexes an array out of
    range has undefined behaviour in C: the model returns a \<open>fault\<close>. A loop that does not
    terminate (a cyclic chain) is the value \<open>None\<close>.
\<close>

subsection \<open>Data model\<close>

type_synonym addr = nat
type_synonym ulong = "64 word"

record hash_table_bucket_t =
  first_fill :: "addr option"
  last_fill :: "addr option"

record 'o hash_table_fill_t =
  fill_object :: 'o
  next_fill :: "addr option"
  first_duplicate :: "addr option"
  last_duplicate :: "addr option"

record 'o hash_table_duplicate_t =
  dup_object :: 'o
  next_duplicate :: "addr option"

record 'o hash_table_t =
  buckets :: "addr option list"
  number_of_total_buckets :: ulong
  number_of_buckets_filled :: ulong
  number_of_collisions :: ulong
  number_of_duplicates :: ulong
  hash_function :: "string \<Rightarrow> ulong \<Rightarrow> ulong"
  compare_function :: "'o \<Rightarrow> 'o \<Rightarrow> int"
  search_function :: "string \<Rightarrow> 'o \<Rightarrow> int"
  free_function :: "('o \<Rightarrow> unit) option"

record 'o memory =
  bucket_mem :: "addr \<Rightarrow> hash_table_bucket_t option"
  fill_mem :: "addr \<Rightarrow> 'o hash_table_fill_t option"
  dup_mem :: "addr \<Rightarrow> 'o hash_table_duplicate_t option"
  next_addr :: addr
  live_bytes :: nat
  calloc_ok :: "nat \<Rightarrow> bool"
  calloc_calls :: nat

datatype fault = BucketIndexOutOfBounds | RecordIndexOutOfBounds | InvalidPointer

text \<open>The sizes that \<^verbatim>\<open>sizeof\<close> yields under LP64 (8-byte pointers and \<^verbatim>\<open>unsigned long\<close>).\<close>

definition sizeof_hash_table_t :: nat where "sizeof_hash_table_t = 72"
definition sizeof_pointer :: nat where "sizeof_pointer = 8"
definition sizeof_hash_table_bucket_t :: nat where "sizeof_hash_table_bucket_t = 16"
definition sizeof_hash_table_fill_t :: nat where "sizeof_hash_table_fill_t = 32"
definition sizeof_hash_table_duplicate_t :: nat where "sizeof_hash_table_duplicate_t = 16"

subsection \<open>The allocator\<close>

text \<open>
  \<^verbatim>\<open>calloc(nmemb, size)\<close>: the call consumes one entry of the oracle. On success it hands
  out the next fresh address and the block is counted among the live bytes.
\<close>

definition calloc :: "nat \<Rightarrow> nat \<Rightarrow> 'o memory \<Rightarrow> addr option \<times> 'o memory" where
  "calloc nmemb sz m =
     (if calloc_ok m (calloc_calls m) \<and> live_bytes m + nmemb * sz < 2 ^ 64
      then (Some (next_addr m),
            m\<lparr>next_addr := Suc (next_addr m),
              live_bytes := live_bytes m + nmemb * sz,
              calloc_calls := Suc (calloc_calls m)\<rparr>)
      else (None, m\<lparr>calloc_calls := Suc (calloc_calls m)\<rparr>))"

text \<open>\<^verbatim>\<open>free\<close> of a block of \<open>sz\<close> bytes that holds no node of the table.\<close>

definition free :: "nat \<Rightarrow> 'o memory \<Rightarrow> 'o memory" where
  "free sz m = m\<lparr>live_bytes := live_bytes m - sz\<rparr>"

subsection \<open>\<^verbatim>\<open>Hash_Table_Init\<close>\<close>

text \<open>
  Lines 44-78. The function pointers are asserted non-null, which their types say here.
  When the second allocation fails the table record allocated first is not released.
\<close>

definition Hash_Table_Init ::
  "ulong \<Rightarrow> (string \<Rightarrow> ulong \<Rightarrow> ulong) \<Rightarrow> ('o \<Rightarrow> 'o \<Rightarrow> int) \<Rightarrow> (string \<Rightarrow> 'o \<Rightarrow> int) \<Rightarrow>
   ('o \<Rightarrow> unit) option \<Rightarrow> 'o memory \<Rightarrow> 'o hash_table_t option \<times> 'o memory" where
  "Hash_Table_Init number_of_buckets hash_fun compare_fun search_fun free_fun m =
     (case calloc 1 sizeof_hash_table_t m of
        (None, m1) \<Rightarrow> (None, m1)
      | (Some new_hash_table, m1) \<Rightarrow>
          (case calloc (unat number_of_buckets) sizeof_pointer m1 of
             (None, m2) \<Rightarrow> (None, m2)
           | (Some bucket_array, m2) \<Rightarrow>
               (Some \<lparr>buckets = replicate (unat number_of_buckets) None,
                      number_of_total_buckets = number_of_buckets,
                      number_of_buckets_filled = 0,
                      number_of_collisions = 0,
                      number_of_duplicates = 0,
                      hash_function = hash_fun,
                      compare_function = compare_fun,
                      search_function = search_fun,
                      free_function = free_fun\<rparr>, m2)))"

subsection \<open>\<^verbatim>\<open>Hash_Table_Insert\<close>\<close>

text \<open>
  What the collision loop (lines 137-184) hands to the code after it: either the function
  has already returned 0 from inside the loop, or the loop is left with the values of
  \<^verbatim>\<open>objectPlaced\<close>, \<^verbatim>\<open>current_bucket_fill\<close> and \<^verbatim>\<open>prev_bucket_fill\<close>.
\<close>

datatype 'o loop_exit =
    Return0 "'o memory"
  | LoopDone bool "addr option" "addr option" "'o hash_table_t" "'o memory"

text \<open>
  Lines 144-167, the duplicate branch at the fill node \<open>cur\<close> whose record is \<open>f\<close>: the
  new duplicate node is linked behind \<^verbatim>\<open>last_duplicate\<close>, or becomes
  \<^verbatim>\<open>first_duplicate\<close> when there is none, and \<^verbatim>\<open>last_duplicate\<close> is moved to it.
\<close>

definition add_duplicate ::
  "'o hash_table_t \<Rightarrow> 'o memory \<Rightarrow> 'o \<Rightarrow> addr \<Rightarrow> 'o hash_table_fill_t \<Rightarrow> addr option \<Rightarrow>
   (fault + 'o loop_exit) option" where
  "add_duplicate table m obj cur f prev_bucket_fill =
     (case calloc 1 sizeof_hash_table_duplicate_t m of
        (None, m1) \<Rightarrow> Some (Inr (Return0 m1))
      | (Some new_node_duplicate, m1) \<Rightarrow>
          (let dm1 = (dup_mem m1)(new_node_duplicate \<mapsto>
                       \<lparr>dup_object = obj, next_duplicate = None\<rparr>);
               table1 = table\<lparr>number_of_duplicates := number_of_duplicates table + 1\<rparr>
           in case last_duplicate f of
                Some current_dup \<Rightarrow>
                  (case dm1 current_dup of
                     None \<Rightarrow> Some (Inl InvalidPointer)
                   | Some d \<Rightarrow>
                       Some (Inr (LoopDone True (Some cur) prev_bucket_fill table1
                         (m1\<lparr>dup_mem := dm1(current_dup \<mapsto>
                                 d\<lparr>next_duplicate := Some new_node_duplicate\<rparr>),
                             fill_mem := (fill_mem m1)(cur \<mapsto>
                                 f\<lparr>last_duplicate := Some new_node_duplicate\<rparr>)\<rparr>))))
              | None \<Rightarrow>
                  Some (Inr (LoopDone True (Some cur) prev_bucket_fill table1
                    (m1\<lparr>dup_mem := dm1,
                        fill_mem := (fill_mem m1)(cur \<mapsto>
                            f\<lparr>first_duplicate := Some new_node_duplicate,
                              last_duplicate := Some new_node_duplicate\<rparr>)\<rparr>)))))"

text \<open>
  The loop of lines 137-184. It stops at a null \<^verbatim>\<open>current_bucket_fill\<close>, after a
  duplicate was placed (\<^verbatim>\<open>objectPlaced\<close>), or at the \<^verbatim>\<open>break\<close> of line 181.
\<close>

partial_function (option) insert_loop ::
  "'o hash_table_t \<Rightarrow> 'o memory \<Rightarrow> 'o \<Rightarrow> addr option \<Rightarrow> addr option \<Rightarrow>
   (fault + 'o loop_exit) option" where
  "insert_loop table m obj current_bucket_fill prev_bucket_fill =
     (case current_bucket_fill of
        None \<Rightarrow> Some (Inr (LoopDone False None prev_bucket_fill table m))
      | Some cur \<Rightarrow>
          (case fill_mem m cur of
             None \<Rightarrow> Some (Inl InvalidPointer)
           | Some f \<Rightarrow>
               if compare_function table (fill_object f) obj = 0
               then add_duplicate table m obj cur f prev_bucket_fill
               else if compare_function table (fill_object f) obj < 0
               then insert_loop table m obj (next_fill f) (Some cur)
               else Some (Inr (LoopDone False (Some cur) prev_bucket_fill table m))))"

text \<open>
  Lines 186-207, reached with \<^verbatim>\<open>objectPlaced == 0\<close>: a new fill node is linked in front of
  \<open>current_bucket_fill\<close> and behind \<open>prev_bucket_fill\<close>; the bucket node \<open>b\<close> of the slot
  is updated where the new node becomes the head or the tail.
\<close>

definition place_fill ::
  "'o hash_table_t \<Rightarrow> 'o memory \<Rightarrow> 'o \<Rightarrow> addr \<Rightarrow> addr option \<Rightarrow> addr option \<Rightarrow>
   (fault + int \<times> 'o hash_table_t \<times> 'o memory) option" where
  "place_fill table m obj b current_bucket_fill prev_bucket_fill =
     (case calloc 1 sizeof_hash_table_fill_t m of
        (None, m1) \<Rightarrow> Some (Inr (0, table, m1))
      | (Some new_bucket_fill, m1) \<Rightarrow>
          (let fm1 = (fill_mem m1)(new_bucket_fill \<mapsto>
                       \<lparr>fill_object = obj, next_fill = current_bucket_fill,
                        first_duplicate = None, last_duplicate = None\<rparr>);
               table1 = table\<lparr>number_of_collisions := number_of_collisions table + 1\<rparr>
           in case bucket_mem m1 b of
                None \<Rightarrow> Some (Inl InvalidPointer)
              | Some bk \<Rightarrow>
                  (let bk1 = (if current_bucket_fill \<noteq> None then bk
                              else bk\<lparr>last_fill := Some new_bucket_fill\<rparr>)
                   in case prev_bucket_fill of
                        Some prev \<Rightarrow>
                          (case fm1 prev of
                             None \<Rightarrow> Some (Inl InvalidPointer)
                           | Some p \<Rightarrow>
                               Some (Inr (1, table1,
                                 m1\<lparr>fill_mem := fm1(prev \<mapsto> p\<lparr>next_fill := Some new_bucket_fill\<rparr>),
                                    bucket_mem := (bucket_mem m1)(b \<mapsto> bk1)\<rparr>)))
                      | None \<Rightarrow>
                          Some (Inr (1, table1,
                            m1\<lparr>fill_mem := fm1,
                               bucket_mem := (bucket_mem m1)(b \<mapsto>
                                  bk1\<lparr>first_fill := Some new_bucket_fill\<rparr>)\<rparr>)))))"

text \<open>
  Lines 86-211. The result is the returned \<^verbatim>\<open>int\<close> (1 success, 0 allocation failure) with
  the table and the memory after the call.
\<close>

definition Hash_Table_Insert ::
  "'o hash_table_t \<Rightarrow> 'o memory \<Rightarrow> 'o \<Rightarrow> string \<Rightarrow>
   (fault + int \<times> 'o hash_table_t \<times> 'o memory) option" where
  "Hash_Table_Insert table m obj pattern =
     (let hashedIndex = unat (hash_function table pattern (number_of_total_buckets table))
      in if length (buckets table) \<le> hashedIndex then Some (Inl BucketIndexOutOfBounds)
         else case buckets table ! hashedIndex of
           None \<Rightarrow>
             (case calloc 1 sizeof_hash_table_bucket_t m of
                (None, m1) \<Rightarrow> Some (Inr (0, table, m1))
              | (Some new_bucket, m1) \<Rightarrow>
                  (case calloc 1 sizeof_hash_table_fill_t m1 of
                     (None, m2) \<Rightarrow>
                       Some (Inr (0, table, free sizeof_hash_table_bucket_t m2))
                   | (Some new_bucket_fill, m2) \<Rightarrow>
                       Some (Inr (1,
                         table\<lparr>buckets := (buckets table)[hashedIndex := Some new_bucket],
                               number_of_buckets_filled := number_of_buckets_filled table + 1\<rparr>,
                         m2\<lparr>fill_mem := (fill_mem m2)(new_bucket_fill \<mapsto>
                               \<lparr>fill_object = obj, next_fill = None,
                                first_duplicate = None, last_duplicate = None\<rparr>),
                            bucket_mem := (bucket_mem m2)(new_bucket \<mapsto>
                               \<lparr>first_fill = Some new_bucket_fill,
                                last_fill = Some new_bucket_fill\<rparr>)\<rparr>))))
         | Some b \<Rightarrow>
             (case bucket_mem m b of
                None \<Rightarrow> Some (Inl InvalidPointer)
              | Some bk \<Rightarrow>
                  (case insert_loop table m obj (first_fill bk) None of
                     None \<Rightarrow> None
                   | Some (Inl e) \<Rightarrow> Some (Inl e)
                   | Some (Inr (Return0 m1)) \<Rightarrow> Some (Inr (0, table, m1))
                   | Some (Inr (LoopDone objectPlaced current_bucket_fill prev_bucket_fill
                                  table1 m1)) \<Rightarrow>
                       if \<not> objectPlaced
                       then place_fill table1 m1 obj b current_bucket_fill prev_bucket_fill
                       else Some (Inr (1, table1, m1)))))"

subsection \<open>\<^verbatim>\<open>Hash_Table_Match\<close> and \<^verbatim>\<open>Hash_Table_First_Match\<close>\<close>

text \<open>
  The inner loop of lines 363-372: duplicates are copied into \<^verbatim>\<open>found_records\<close> at index
  \<^verbatim>\<open>*number_of_objects_found\<close> while that counter is below \<^verbatim>\<open>max_num_records\<close>.
\<close>

partial_function (option) collect_duplicates ::
  "'o memory \<Rightarrow> ulong \<Rightarrow> addr option \<Rightarrow> 'o option list \<Rightarrow> ulong \<Rightarrow>
   (fault + 'o option list \<times> ulong) option" where
  "collect_duplicates m max_num_records current_dup found_records number_of_objects_found =
     (case current_dup of
        None \<Rightarrow> Some (Inr (found_records, number_of_objects_found))
      | Some d \<Rightarrow>
          if \<not> number_of_objects_found < max_num_records
          then Some (Inr (found_records, number_of_objects_found))
          else (case dup_mem m d of
                  None \<Rightarrow> Some (Inl InvalidPointer)
                | Some dn \<Rightarrow>
                    if length found_records \<le> unat number_of_objects_found
                    then Some (Inl RecordIndexOutOfBounds)
                    else collect_duplicates m max_num_records (next_duplicate dn)
                           (found_records[unat number_of_objects_found := Some (dup_object dn)])
                           (number_of_objects_found + 1)))"

text \<open>
  Lines 350-374, at the first fill node \<open>f\<close> that the search strategy accepts: the result
  array of \<^verbatim>\<open>max_num_records\<close> null pointers is allocated, the representative is stored at
  index 0 and the counter is incremented from the value it had on entry. The message
  printed when the allocation fails is not modelled.
\<close>

definition collect_match ::
  "'o memory \<Rightarrow> ulong \<Rightarrow> ulong \<Rightarrow> 'o hash_table_fill_t \<Rightarrow>
   (fault + 'o option list option \<times> ulong \<times> 'o memory) option" where
  "collect_match m max_num_records number_of_objects_found f =
     (case calloc (unat max_num_records) sizeof_pointer m of
        (None, m1) \<Rightarrow> Some (Inr (None, number_of_objects_found, m1))
      | (Some found_records, m1) \<Rightarrow>
          if unat max_num_records = 0 then Some (Inl RecordIndexOutOfBounds)
          else (case collect_duplicates m1 max_num_records (first_duplicate f)
                       ((replicate (unat max_num_records) None)[0 := Some (fill_object f)])
                       (number_of_objects_found + 1) of
                  None \<Rightarrow> None
                | Some (Inl e) \<Rightarrow> Some (Inl e)
                | Some (Inr (records, found)) \<Rightarrow> Some (Inr (Some records, found, m1))))"

text \<open>The loop of lines 346-381 over the fill chain of the hashed bucket.\<close>

partial_function (option) match_loop ::
  "'o hash_table_t \<Rightarrow> 'o memory \<Rightarrow> string \<Rightarrow> ulong \<Rightarrow> ulong \<Rightarrow> addr option \<Rightarrow>
   (fault + 'o option list option \<times> ulong \<times> 'o memory) option" where
  "match_loop table m pattern number_of_objects_found max_num_records current_fill =
     (case current_fill of
        None \<Rightarrow> Some (Inr (None, number_of_objects_found, m))
      | Some cur \<Rightarrow>
          (case fill_mem m cur of
             None \<Rightarrow> Some (Inl InvalidPointer)
           | Some f \<Rightarrow>
               if search_function table pattern (fill_object f) = 1
               then collect_match m max_num_records number_of_objects_found f
               else match_loop table m pattern number_of_objects_found max_num_records
                      (next_fill f)))"

text \<open>
  Lines 320-386. \<open>number_of_objects_found\<close> is the value the caller's counter holds on
  entry; the result is the returned array (\<open>None\<close> for \<^verbatim>\<open>NULL\<close>), the counter on return and
  the memory.
\<close>

definition Hash_Table_Match ::
  "'o hash_table_t \<Rightarrow> 'o memory \<Rightarrow> string \<Rightarrow> ulong \<Rightarrow> ulong \<Rightarrow>
   (fault + 'o option list option \<times> ulong \<times> 'o memory) option" where
  "Hash_Table_Match table m pattern number_of_objects_found max_num_records =
     (let key = unat (hash_function table pattern (number_of_total_buckets table))
      in if length (buckets table) \<le> key then Some (Inl BucketIndexOutOfBounds)
         else case buckets table ! key of
           None \<Rightarrow> Some (Inr (None, 0, m))
         | Some bucket \<Rightarrow>
             (case bucket_mem m bucket of
                None \<Rightarrow> Some (Inl InvalidPointer)
              | Some bk \<Rightarrow>
                  match_loop table m pattern number_of_objects_found max_num_records
                    (first_fill bk)))"

text \<open>
  Lines 391-413. The array returned by the lookup is released after its first entry was
  read.
\<close>

definition Hash_Table_First_Match ::
  "'o hash_table_t \<Rightarrow> 'o memory \<Rightarrow> string \<Rightarrow> (fault + 'o option \<times> 'o memory) option" where
  "Hash_Table_First_Match table m pattern =
     (case Hash_Table_Match table m pattern 0 1 of
        None \<Rightarrow> None
      | Some (Inl e) \<Rightarrow> Some (Inl e)
      | Some (Inr (Some found_objects, number_of_objects_found, m1)) \<Rightarrow>
          (case found_objects of
             [] \<Rightarrow> Some (Inl RecordIndexOutOfBounds)
           | found_object # rest \<Rightarrow>
               Some (Inr (found_object, free (sizeof_pointer * length found_objects) m1)))
      | Some (Inr (None, number_of_objects_found, m1)) \<Rightarrow> Some (Inr (None, m1)))"

subsection \<open>\<^verbatim>\<open>Hash_Table_Insert_No_Duplicate\<close>\<close>

text \<open>
  Lines 221-255. \<open>found_duplicate\<close> is the value of the caller's variable on entry; the
  result is the returned \<^verbatim>\<open>int\<close>, the caller's variable on return, the table and the
  memory.
\<close>

definition Hash_Table_Insert_No_Duplicate ::
  "'o hash_table_t \<Rightarrow> 'o memory \<Rightarrow> 'o \<Rightarrow> string \<Rightarrow> 'o option \<Rightarrow>
   (fault + int \<times> 'o option \<times> 'o hash_table_t \<times> 'o memory) option" where
  "Hash_Table_Insert_No_Duplicate table m obj pattern found_duplicate =
     (case Hash_Table_Match table m pattern 0 1 of
        None \<Rightarrow> None
      | Some (Inl e) \<Rightarrow> Some (Inl e)
      | Some (Inr (object_temp, number_records, m1)) \<Rightarrow>
          if number_records = 0
          then (case Hash_Table_Insert table m1 obj pattern of
                  None \<Rightarrow> None
                | Some (Inl e) \<Rightarrow> Some (Inl e)
                | Some (Inr (r, table1, m2)) \<Rightarrow>
                    if r = 0 then Some (Inr (- 1, found_duplicate, table1, m2))
                    else Some (Inr (1, found_duplicate, table1, m2)))
          else (case object_temp of
                  None \<Rightarrow> Some (Inl InvalidPointer)
                | Some [] \<Rightarrow> Some (Inl RecordIndexOutOfBounds)
                | Some (first_record # rest) \<Rightarrow>
                    Some (Inr (0, first_record, table,
                               free (sizeof_pointer * Suc (length rest)) m1))))"

subsection \<open>\<^verbatim>\<open>Hash_Table_Size\<close>\<close>

text \<open>Lines 418-440, in \<^verbatim>\<open>unsigned long\<close> arithmetic.\<close>

definition Hash_Table_Size :: "'o hash_table_t \<Rightarrow> ulong" where
  "Hash_Table_Size table =
     (let table_size = of_nat sizeof_hash_table_t +
            number_of_total_buckets table * of_nat sizeof_pointer;
          bucket_size = number_of_buckets_filled table * of_nat sizeof_hash_table_bucket_t;
          bucket_fill_size = (number_of_buckets_filled table + number_of_collisions table) *
            of_nat sizeof_hash_table_fill_t;
          bucket_duplicate_size = number_of_duplicates table *
            of_nat sizeof_hash_table_duplicate_t
      in table_size + bucket_size + bucket_fill_size + bucket_duplicate_size)"

subsection \<open>Sequences of operations\<close>

datatype 'o operation =
    Op_Insert 'o string
  | Op_Insert_No_Duplicate 'o string "'o option"
  | Op_Match string ulong ulong
  | Op_First_Match string

text \<open>One call on the table; the values handed back to the caller are dropped.\<close>

fun step ::
  "'o hash_table_t \<Rightarrow> 'o memory \<Rightarrow> 'o operation \<Rightarrow> (fault + 'o hash_table_t \<times> 'o memory) option" where
  "step table m (Op_Insert obj pattern) =
     (case Hash_Table_Insert table m obj pattern of
        None \<Rightarrow> None
      | Some (Inl e) \<Rightarrow> Some (Inl e)
      | Some (Inr (r, table1, m1)) \<Rightarrow> Some (Inr (table1, m1)))"
| "step table m (Op_Insert_No_Duplicate obj pattern found_duplicate) =
     (case Hash_Table_Insert_No_Duplicate table m obj pattern found_duplicate of
        None \<Rightarrow> None
      | Some (Inl e) \<Rightarrow> Some (Inl e)
      | Some (Inr (r, found, table1, m1)) \<Rightarrow> Some (Inr (table1, m1)))"
| "step table m (Op_Match pattern number_of_objects_found max_num_records) =
     (case Hash_Table_Match table m pattern number_of_objects_found max_num_records of
        None \<Rightarrow> None
      | Some (Inl e) \<Rightarrow> Some (Inl e)
      | Some (Inr (records, found, m1)) \<Rightarrow> Some (Inr (table, m1)))"
| "step table m (Op_First_Match pattern) =
     (case Hash_Table_First_Match table m pattern of
        None \<Rightarrow> None
      | Some (Inl e) \<Rightarrow> Some (Inl e)
      | Some (Inr (found, m1)) \<Rightarrow> Some (Inr (table, m1)))"

fun run ::
  "'o hash_table_t \<Rightarrow> 'o memory \<Rightarrow> 'o operation list \<Rightarrow>
   (fault + 'o hash_table_t \<times> 'o memory) option" where
  "run table m [] = Some (Inr (table, m))"
| "run table m (op # ops) =
     (case step table m op of
        None \<Rightarrow> None
      | Some (Inl e) \<Rightarrow> Some (Inl e)
      | Some (Inr (table1, m1)) \<Rightarrow> run table1 m1 ops)"

subsection \<open>Reading the linked structure\<close>

text \<open>
  \<open>dup_walk m p objs\<close>: following \<^verbatim>\<open>next_duplicate\<close> from the pointer \<open>p\<close> up to the null
  pointer visits duplicate nodes that hold exactly the objects \<open>objs\<close>, in this order.
\<close>

primrec dup_walk :: "'o memory \<Rightarrow> addr option \<Rightarrow> 'o list \<Rightarrow> bool" where
  "dup_walk m p [] \<longleftrightarrow> p = None"
| "dup_walk m p (x # xs) \<longleftrightarrow>
     (case p of
        None \<Rightarrow> False
      | Some a \<Rightarrow>
          (case dup_mem m a of
             None \<Rightarrow> False
           | Some d \<Rightarrow> dup_object d = x \<and> dup_walk m (next_duplicate d) xs))"

text \<open>
  \<open>fill_walk m p entries\<close>: following \<^verbatim>\<open>next_fill\<close> from \<open>p\<close> up to the null pointer visits
  fill nodes whose representative and duplicate chain are the pairs of \<open>entries\<close>, in this
  order.
\<close>

primrec fill_walk :: "'o memory \<Rightarrow> addr option \<Rightarrow> ('o \<times> 'o list) list \<Rightarrow> bool" where
  "fill_walk m p [] \<longleftrightarrow> p = None"
| "fill_walk m p (e # es) \<longleftrightarrow>
     (case p of
        None \<Rightarrow> False
      | Some a \<Rightarrow>
          (case fill_mem m a of
             None \<Rightarrow> False
           | Some f \<Rightarrow>
               fill_object f = fst e \<and> dup_walk m (first_duplicate f) (snd e) \<and>
               fill_walk m (next_fill f) es))"

text \<open>
  What one slot of the bucket array holds: nothing (a null slot), or the entries of the
  chain of its bucket node.
\<close>

definition slot_holds ::
  "'o memory \<Rightarrow> addr option \<Rightarrow> ('o \<times> 'o list) list option \<Rightarrow> bool" where
  "slot_holds m p c =
     (case p of
        None \<Rightarrow> c = None
      | Some b \<Rightarrow>
          (case bucket_mem m b of
             None \<Rightarrow> False
           | Some bk \<Rightarrow>
               (case c of None \<Rightarrow> False | Some es \<Rightarrow> fill_walk m (first_fill bk) es)))"

definition table_holds ::
  "'o hash_table_t \<Rightarrow> 'o memory \<Rightarrow> ('o \<times> 'o list) list option list \<Rightarrow> bool" where
  "table_holds table m A = list_all2 (slot_holds m) (buckets table) A"

subsection \<open>Well-formed tables\<close>

text \<open>
  \<open>chain nxt p as q\<close>: the nodes at the addresses \<open>as\<close> are linked in this order, from the
  pointer \<open>p\<close> to the pointer \<open>q\<close> that the last of them holds. \<open>nxt a\<close> is the link field of
  the node at \<open>a\<close>, or \<open>None\<close> when no node is allocated there.
\<close>

primrec chain :: "(addr \<Rightarrow> addr option option) \<Rightarrow> addr option \<Rightarrow> addr list \<Rightarrow> addr option \<Rightarrow> bool" where
  "chain nxt p [] q \<longleftrightarrow> p = q"
| "chain nxt p (a # as) q \<longleftrightarrow>
     p = Some a \<and> (case nxt a of None \<Rightarrow> False | Some p' \<Rightarrow> chain nxt p' as q)"

definition fill_next :: "'o memory \<Rightarrow> addr \<Rightarrow> addr option option" where
  "fill_next m a = map_option next_fill (fill_mem m a)"

definition fill_dup_ptrs :: "'o memory \<Rightarrow> addr \<Rightarrow> (addr option \<times> addr option) option" where
  "fill_dup_ptrs m a = map_option (\<lambda>f. (first_duplicate f, last_duplicate f)) (fill_mem m a)"

definition fill_obj :: "'o memory \<Rightarrow> addr \<Rightarrow> 'o option" where
  "fill_obj m a = map_option fill_object (fill_mem m a)"

definition dup_next :: "'o memory \<Rightarrow> addr \<Rightarrow> addr option option" where
  "dup_next m a = map_option next_duplicate (dup_mem m a)"

definition dup_obj :: "'o memory \<Rightarrow> addr \<Rightarrow> 'o option" where
  "dup_obj m a = map_option dup_object (dup_mem m a)"

text \<open>
  The shape of a table names the addresses of its nodes: for every slot of the bucket
  array nothing, or the address of the bucket node with, for every fill node of its chain
  in order, the address of the fill node and the addresses of its duplicate nodes in order.
\<close>

type_synonym slot_shape = "(addr \<times> (addr \<times> addr list) list) option"
type_synonym shape = "slot_shape list"

fun slot_buckets :: "slot_shape \<Rightarrow> addr list" where
  "slot_buckets None = []"
| "slot_buckets (Some (b, fds)) = [b]"

fun slot_fills :: "slot_shape \<Rightarrow> addr list" where
  "slot_fills None = []"
| "slot_fills (Some (b, fds)) = map fst fds"

fun slot_dups :: "slot_shape \<Rightarrow> addr list" where
  "slot_dups None = []"
| "slot_dups (Some (b, fds)) = concat (map snd fds)"

text \<open>
  A fill node with its duplicates: \<^verbatim>\<open>first_duplicate\<close> starts the chain of the duplicates
  and \<^verbatim>\<open>last_duplicate\<close> points to its last node (both null when there is none).
\<close>

fun fill_ok ::
  "(addr \<Rightarrow> (addr option \<times> addr option) option) \<Rightarrow> (addr \<Rightarrow> addr option option) \<Rightarrow>
   addr \<times> addr list \<Rightarrow> bool" where
  "fill_ok fdp dn (f, ds) =
     (case fdp f of
        None \<Rightarrow> False
      | Some (fd, ld) \<Rightarrow>
          chain dn fd ds None \<and> ld = (if ds = [] then None else Some (last ds)))"

text \<open>
  A slot: a null slot has no shape; otherwise the slot points to the bucket node, whose
  \<^verbatim>\<open>first_fill\<close> starts the non-empty chain of the fill nodes and whose \<^verbatim>\<open>last_fill\<close> points
  to its last node.
\<close>

fun slot_ok ::
  "(addr \<Rightarrow> hash_table_bucket_t option) \<Rightarrow> (addr \<Rightarrow> addr option option) \<Rightarrow>
   (addr \<Rightarrow> (addr option \<times> addr option) option) \<Rightarrow> (addr \<Rightarrow> addr option option) \<Rightarrow>
   addr option \<Rightarrow> slot_shape \<Rightarrow> bool" where
  "slot_ok bm fn fdp dn p None \<longleftrightarrow> p = None"
| "slot_ok bm fn fdp dn p (Some (b, fds)) \<longleftrightarrow>
     p = Some b \<and> fds \<noteq> [] \<and>
     (case bm b of
        None \<Rightarrow> False
      | Some bk \<Rightarrow>
          chain fn (first_fill bk) (map fst fds) None \<and> last_fill bk = Some (fst (last fds))) \<and>
     list_all (fill_ok fdp dn) fds"

text \<open>
  The table and the memory have the shape \<open>sh\<close>: every slot is as its shape says, no node
  is shared between two places of the shape, every node was handed out by the allocator,
  and the bucket array has the length the table records.
\<close>

definition represents :: "'o hash_table_t \<Rightarrow> 'o memory \<Rightarrow> shape \<Rightarrow> bool" where
  "represents table m sh \<longleftrightarrow>
     length (buckets table) = unat (number_of_total_buckets table) \<and>
     list_all2 (slot_ok (bucket_mem m) (fill_next m) (fill_dup_ptrs m) (dup_next m))
       (buckets table) sh \<and>
     distinct (concat (map slot_buckets sh)) \<and>
     distinct (concat (map slot_fills sh)) \<and>
     distinct (concat (map slot_dups sh)) \<and>
     list_all (\<lambda>a. a < next_addr m) (concat (map slot_buckets sh)) \<and>
     list_all (\<lambda>a. a < next_addr m) (concat (map slot_fills sh)) \<and>
     list_all (\<lambda>a. a < next_addr m) (concat (map slot_dups sh))"

text \<open>The objects that the nodes of a shape hold.\<close>

fun slot_contents ::
  "(addr \<Rightarrow> 'o option) \<Rightarrow> (addr \<Rightarrow> 'o option) \<Rightarrow> slot_shape \<Rightarrow> ('o \<times> 'o list) list option" where
  "slot_contents fo dob None = None"
| "slot_contents fo dob (Some (b, fds)) =
     Some (map (\<lambda>(f, ds). (the (fo f), map (\<lambda>d. the (dob d)) ds)) fds)"

definition contents :: "'o memory \<Rightarrow> shape \<Rightarrow> ('o \<times> 'o list) list option list" where
  "contents m sh = map (slot_contents (fill_obj m) (dup_obj m)) sh"

text \<open>
  The counters and the allocator agree with the shape: the counters count its nodes, and
  the live bytes cover the table record, the bucket array and all nodes.
\<close>

definition accounted :: "'o hash_table_t \<Rightarrow> 'o memory \<Rightarrow> shape \<Rightarrow> bool" where
  "accounted table m sh \<longleftrightarrow>
     unat (number_of_buckets_filled table) = length (concat (map slot_buckets sh)) \<and>
     unat (number_of_buckets_filled table) + unat (number_of_collisions table) =
       length (concat (map slot_fills sh)) \<and>
     unat (number_of_duplicates table) = length (concat (map slot_dups sh)) \<and>
     sizeof_hash_table_t + sizeof_pointer * unat (number_of_total_buckets table) +
       sizeof_hash_table_bucket_t * length (concat (map slot_buckets sh)) +
       sizeof_hash_table_fill_t * length (concat (map slot_fills sh)) +
       sizeof_hash_table_duplicate_t * length (concat (map slot_dups sh)) \<le> live_bytes m \<and>
     live_bytes m < 2 ^ 64"

subsection \<open>The strategies\<close>

text \<open>
  A compare strategy that is a consistent total order: the sign of the result flips with
  the arguments, and "not after" is transitive.
\<close>

definition consistent_total_order :: "('o \<Rightarrow> 'o \<Rightarrow> int) \<Rightarrow> bool" where
  "consistent_total_order cmp \<longleftrightarrow>
     (\<forall>a b. (cmp a b < 0) = (0 < cmp b a)) \<and>
     (\<forall>a b c. cmp a b \<le> 0 \<and> cmp b c \<le> 0 \<longrightarrow> cmp a c \<le> 0)"

text \<open>A hash strategy that stays below the number of buckets it is given.\<close>

definition hash_in_bounds :: "'o hash_table_t \<Rightarrow> bool" where
  "hash_in_bounds table \<longleftrightarrow>
     (\<forall>pattern. hash_function table pattern (number_of_total_buckets table) <
        number_of_total_buckets table)"

text \<open>The representatives of every chain are strictly ascending.\<close>

definition strictly_ordered :: "('o \<Rightarrow> 'o \<Rightarrow> int) \<Rightarrow> ('o \<times> 'o list) list option \<Rightarrow> bool" where
  "strictly_ordered cmp c =
     (case c of None \<Rightarrow> True | Some es \<Rightarrow> sorted_wrt (\<lambda>x y. cmp x y < 0) (map fst es))"

subsection \<open>The insertion algorithm as the specification words it\<close>

datatype insert_kind = Bucket_Filled | Collision | Duplicate

text \<open>
  The walk over a non-empty bucket: an entry that compares equal takes the object at the
  tail of its duplicates; an entry that compares less is passed; at the first entry that
  compares greater, or at the end, a new entry is spliced in.
\<close>

fun spec_chain_insert ::
  "('o \<Rightarrow> 'o \<Rightarrow> int) \<Rightarrow> 'o \<Rightarrow> ('o \<times> 'o list) list \<Rightarrow> ('o \<times> 'o list) list \<times> insert_kind" where
  "spec_chain_insert cmp obj [] = ([(obj, [])], Collision)"
| "spec_chain_insert cmp obj ((r, ds) # es) =
     (if cmp r obj = 0 then ((r, ds @ [obj]) # es, Duplicate)
      else if cmp r obj < 0
      then (case spec_chain_insert cmp obj es of (es', k) \<Rightarrow> ((r, ds) # es', k))
      else ((obj, []) # (r, ds) # es, Collision))"

fun spec_insert ::
  "('o \<Rightarrow> 'o \<Rightarrow> int) \<Rightarrow> 'o \<Rightarrow> ('o \<times> 'o list) list option \<Rightarrow>
   ('o \<times> 'o list) list option \<times> insert_kind" where
  "spec_insert cmp obj None = (Some [(obj, [])], Bucket_Filled)"
| "spec_insert cmp obj (Some es) =
     (case spec_chain_insert cmp obj es of (es', k) \<Rightarrow> (Some es', k))"

text \<open>The counters after an insertion of the given kind.\<close>

fun count_insert :: "insert_kind \<Rightarrow> 'o hash_table_t \<Rightarrow> ulong \<times> ulong \<times> ulong" where
  "count_insert Bucket_Filled table =
     (number_of_buckets_filled table + 1, number_of_collisions table,
      number_of_duplicates table)"
| "count_insert Collision table =
     (number_of_buckets_filled table, number_of_collisions table + 1,
      number_of_duplicates table)"
| "count_insert Duplicate table =
     (number_of_buckets_filled table, number_of_collisions table,
      number_of_duplicates table + 1)"

subsection \<open>The shape after an insertion\<close>

text \<open>
  Where the collision loop stops in a chain with the representatives \<open>rs\<close>: the position,
  and whether the entry at this position compares equal to the object.
\<close>

fun locate :: "('o \<Rightarrow> 'o \<Rightarrow> int) \<Rightarrow> 'o \<Rightarrow> 'o list \<Rightarrow> nat \<times> bool" where
  "locate cmp obj [] = (0, False)"
| "locate cmp obj (r # rs) =
     (if cmp r obj = 0 then (0, True)
      else if cmp r obj < 0 then (case locate cmp obj rs of (k, d) \<Rightarrow> (Suc k, d))
      else (0, False))"

definition reps :: "'o memory \<Rightarrow> (addr \<times> addr list) list \<Rightarrow> 'o list" where
  "reps m fds = map (\<lambda>fd. the (fill_obj m (fst fd))) fds"

text \<open>
  The shape after a successful insertion into slot \<open>i\<close>: the new nodes get the next
  addresses of the allocator.
\<close>

definition insert_shape :: "'o hash_table_t \<Rightarrow> 'o memory \<Rightarrow> 'o \<Rightarrow> nat \<Rightarrow> shape \<Rightarrow> shape" where
  "insert_shape table m obj i sh =
     (case sh ! i of
        None \<Rightarrow> sh[i := Some (next_addr m, [(Suc (next_addr m), [])])]
      | Some (b, fds) \<Rightarrow>
          (case locate (compare_function table) obj (reps m fds) of
             (k, True) \<Rightarrow>
               sh[i := Some (b, fds[k := (fst (fds ! k), snd (fds ! k) @ [next_addr m])])]
           | (k, False) \<Rightarrow>
               sh[i := Some (b, take k fds @ (next_addr m, []) # drop k fds)]))"

text \<open>The next two allocations succeed: enough for every path of an insertion.\<close>

definition allocations_succeed :: "'o memory \<Rightarrow> bool" where
  "allocations_succeed m \<longleftrightarrow>
     calloc_ok m (calloc_calls m) \<and> calloc_ok m (Suc (calloc_calls m)) \<and>
     live_bytes m + sizeof_hash_table_bucket_t + sizeof_hash_table_fill_t < 2 ^ 64"

text \<open>The nodes are untouched and the allocator has only moved forward.\<close>

definition nodes_kept :: "'o memory \<Rightarrow> 'o memory \<Rightarrow> bool" where
  "nodes_kept m m' \<longleftrightarrow>
     bucket_mem m' = bucket_mem m \<and> fill_mem m' = fill_mem m \<and> dup_mem m' = dup_mem m \<and>
     next_addr m \<le> next_addr m'"

text \<open>The fields of the table that no operation changes after construction.\<close>

definition same_strategies :: "'o hash_table_t \<Rightarrow> 'o hash_table_t \<Rightarrow> bool" where
  "same_strategies table table' \<longleftrightarrow>
     number_of_total_buckets table' = number_of_total_buckets table \<and>
     hash_function table' = hash_function table \<and>
     compare_function table' = compare_function table \<and>
     search_function table' = search_function table \<and>
     free_function table' = free_function table"

text \<open>The bucket, fill and duplicate nodes that an insertion of the given kind allocates.\<close>

fun nodes_added :: "insert_kind \<Rightarrow> nat \<times> nat \<times> nat" where
  "nodes_added Bucket_Filled = (1, 1, 0)"
| "nodes_added Collision = (0, 1, 0)"
| "nodes_added Duplicate = (0, 0, 1)"

text \<open>
  What a successful insertion into slot \<open>i\<close> of a table with the shape \<open>sh\<close> has done,
  leading from \<open>table\<close> and \<open>m\<close> to \<open>table'\<close> and \<open>m'\<close>.
\<close>

definition inserted ::
  "'o hash_table_t \<Rightarrow> 'o memory \<Rightarrow> shape \<Rightarrow> 'o \<Rightarrow> nat \<Rightarrow> 'o hash_table_t \<Rightarrow> 'o memory \<Rightarrow> bool" where
  "inserted table m sh obj i table' m' \<longleftrightarrow>
     (case spec_insert (compare_function table) obj (contents m sh ! i) of
        (c', kind) \<Rightarrow>
          (case nodes_added kind of
             (nb, nf, nd) \<Rightarrow>
               represents table' m' (insert_shape table m obj i sh) \<and>
               contents m' (insert_shape table m obj i sh) = (contents m sh)[i := c'] \<and>
               (number_of_buckets_filled table', number_of_collisions table',
                number_of_duplicates table') = count_insert kind table \<and>
               same_strategies table table' \<and>
               length (concat (map slot_buckets (insert_shape table m obj i sh))) =
                 length (concat (map slot_buckets sh)) + nb \<and>
               length (concat (map slot_fills (insert_shape table m obj i sh))) =
                 length (concat (map slot_fills sh)) + nf \<and>
               length (concat (map slot_dups (insert_shape table m obj i sh))) =
                 length (concat (map slot_dups sh)) + nd \<and>
               live_bytes m' = live_bytes m + sizeof_hash_table_bucket_t * nb +
                 sizeof_hash_table_fill_t * nf + sizeof_hash_table_duplicate_t * nd \<and>
               live_bytes m' < 2 ^ 64 \<and> next_addr m \<le> next_addr m'))"

text \<open>The invariant of the table: it has a shape, and the counters and bytes agree with it.\<close>

definition well_formed :: "'o hash_table_t \<Rightarrow> 'o memory \<Rightarrow> shape \<Rightarrow> bool" where
  "well_formed table m sh \<longleftrightarrow> represents table m sh \<and> accounted table m sh"

text \<open>Every chain of the table is strictly ascending in the compare strategy.\<close>

definition chains_ordered :: "'o hash_table_t \<Rightarrow> 'o memory \<Rightarrow> shape \<Rightarrow> bool" where
  "chains_ordered table m sh \<longleftrightarrow>
     list_all (strictly_ordered (compare_function table)) (contents m sh)"

text \<open>No kind of node has become fewer from one shape to the other.\<close>

definition grown :: "shape \<Rightarrow> shape \<Rightarrow> bool" where
  "grown sh sh' \<longleftrightarrow>
     length (concat (map slot_buckets sh)) \<le> length (concat (map slot_buckets sh')) \<and>
     length (concat (map slot_fills sh)) \<le> length (concat (map slot_fills sh')) \<and>
     length (concat (map slot_dups sh)) \<le> length (concat (map slot_dups sh'))"

text \<open>
  Every operation but a lookup with a cap of zero records, which stores the representative
  into an array without entries.
\<close>

fun safe_op :: "'o operation \<Rightarrow> bool" where
  "safe_op (Op_Match pattern number_of_objects_found max_num_records) \<longleftrightarrow>
     max_num_records \<noteq> 0"
| "safe_op (Op_Insert obj pattern) \<longleftrightarrow> True"
| "safe_op (Op_Insert_No_Duplicate obj pattern found_duplicate) \<longleftrightarrow> True"
| "safe_op (Op_First_Match pattern) \<longleftrightarrow> True"

text \<open>
  What a lookup with the cap \<open>n\<close>, entered with the counter \<open>c\<close>, may hand back from a
  well-formed table: a fault only for a cap of zero; otherwise the nodes are untouched,
  and the live bytes grow by the returned array, if there is one.
\<close>

definition lookup_result ::
  "'o memory \<Rightarrow> ulong \<Rightarrow> ulong \<Rightarrow> fault + 'o option list option \<times> ulong \<times> 'o memory \<Rightarrow> bool" where
  "lookup_result m n c r =
     (case r of
        Inl e \<Rightarrow> n = 0 \<and> e = RecordIndexOutOfBounds
      | Inr (recs, c', m') \<Rightarrow>
          nodes_kept m m' \<and>
          (case recs of
             None \<Rightarrow> live_bytes m' = live_bytes m \<and> (c' = c \<or> c' = 0)
           | Some arr \<Rightarrow>
               length arr = unat n \<and> n \<noteq> 0 \<and>
               live_bytes m' = live_bytes m + unat n * sizeof_pointer \<and>
               live_bytes m' < 2 ^ 64))"

text \<open>
  The table after an operation: still well-formed, with the same strategies, no node lost,
  and with ordered chains if the compare strategy is an order and they were ordered before.
\<close>

definition kept_or_grown ::
  "'o hash_table_t \<Rightarrow> 'o memory \<Rightarrow> shape \<Rightarrow> 'o hash_table_t \<Rightarrow> 'o memory \<Rightarrow> shape \<Rightarrow> bool" where
  "kept_or_grown table m sh table' m' sh' \<longleftrightarrow>
     well_formed table' m' sh' \<and> same_strategies table table' \<and> grown sh sh' \<and>
     (consistent_total_order (compare_function table) \<longrightarrow> chains_ordered table m sh \<longrightarrow>
        chains_ordered table' m' sh')"

text \<open>The pattern that an operation hashes.\<close>

fun op_pattern :: "'o operation \<Rightarrow> string" where
  "op_pattern (Op_Insert obj pattern) = pattern"
| "op_pattern (Op_Insert_No_Duplicate obj pattern found_duplicate) = pattern"
| "op_pattern (Op_Match pattern number_of_objects_found max_num_records) = pattern"
| "op_pattern (Op_First_Match pattern) = pattern"

text \<open>
  A chain as the order invariant wants it: of any two entries the earlier one is not after
  the later one, and the two do not compare equal, whichever is asked first.
\<close>

definition ascending :: "('o \<Rightarrow> 'o \<Rightarrow> int) \<Rightarrow> ('o \<times> 'o list) list option \<Rightarrow> bool" where
  "ascending cmp c =
     (case c of
        None \<Rightarrow> True
      | Some es \<Rightarrow> sorted_wrt (\<lambda>x y. cmp x y \<le> 0 \<and> cmp x y \<noteq> 0 \<and> cmp y x \<noteq> 0) (map fst es))"

text \<open>The numbers of non-empty slots, of fill entries and of duplicate entries of a table.\<close>

definition filled_slots :: "('o \<times> 'o list) list option list \<Rightarrow> nat" where
  "filled_slots A = length (filter (\<lambda>c. c \<noteq> None) A)"

definition fill_entries :: "('o \<times> 'o list) list option list \<Rightarrow> nat" where
  "fill_entries A = sum_list (map (\<lambda>c. case c of None \<Rightarrow> 0 | Some es \<Rightarrow> length es) A)"

definition duplicate_entries :: "('o \<times> 'o list) list option list \<Rightarrow> nat" where
  "duplicate_entries A =
     sum_list (map (\<lambda>c. case c of None \<Rightarrow> 0
                             | Some es \<Rightarrow> sum_list (map (\<lambda>e. length (snd e)) es)) A)"

subsection \<open>The lookup as the specification words it\<close>

text \<open>The first entry of a slot whose representative the search strategy accepts.\<close>

definition first_match ::
  "(string \<Rightarrow> 'o \<Rightarrow> int) \<Rightarrow> string \<Rightarrow> ('o \<times> 'o list) list option \<Rightarrow> ('o \<times> 'o list) option" where
  "first_match search pattern c =
     (case c of None \<Rightarrow> None | Some es \<Rightarrow> find (\<lambda>e. search pattern (fst e) = 1) es)"

text \<open>
  What a lookup capped at \<open>n\<close> records collects from an entry: the representative, then
  the duplicates in the order of their chain.
\<close>

definition collected :: "nat \<Rightarrow> 'o \<times> 'o list \<Rightarrow> 'o list" where
  "collected n e = take n (fst e # snd e)"

text \<open>Storing the objects \<open>xs\<close> into an array from index \<open>i\<close> on.\<close>

fun store_all :: "'o option list \<Rightarrow> nat \<Rightarrow> 'o list \<Rightarrow> 'o option list" where
  "store_all arr i [] = arr"
| "store_all arr i (x # xs) = store_all (arr[i := Some x]) (Suc i) xs"

text \<open>The result array of a lookup: the collected objects, then null pointers.\<close>

definition result_array :: "nat \<Rightarrow> 'o list \<Rightarrow> 'o option list" where
  "result_array n xs = map Some xs @ replicate (n - length xs) None"

subsection \<open>Example strategies\<close>

text \<open>
  Strategies in the style of the scenario of the specification: payloads are pairs of a
  numeric key and a tag, the key of a pattern is the sum of its character codes, patterns
  are hashed by their length, and payloads are compared and searched by key.
\<close>

definition key_of :: "string \<Rightarrow> nat" where
  "key_of pattern = sum_list (map of_char pattern)"

definition example_hash :: "string \<Rightarrow> ulong \<Rightarrow> ulong" where
  "example_hash pattern max_number = of_nat (length pattern) mod max_number"

definition example_compare :: "nat \<times> nat \<Rightarrow> nat \<times> nat \<Rightarrow> int" where
  "example_compare object1 object2 = int (fst object1) - int (fst object2)"

definition example_search :: "string \<Rightarrow> nat \<times> nat \<Rightarrow> int" where
  "example_search search_string obj = (if key_of search_string = fst obj then 1 else 0)"

text \<open>A memory without nodes in which the allocations with the numbers \<open>fails\<close> fail.\<close>

definition empty_memory :: "nat list \<Rightarrow> (nat \<times> nat) memory" where
  "empty_memory fails =
     \<lparr>bucket_mem = Map.empty, fill_mem = Map.empty, dup_mem = Map.empty, next_addr = 0,
      live_bytes = 0, calloc_ok = (\<lambda>k. k \<notin> set fails), calloc_calls = 0\<rparr>"

text \<open>A table with four buckets and the example strategies, as \<^verbatim>\<open>Hash_Table_Init\<close> builds it.\<close>

definition example_table :: "(nat \<times> nat) hash_table_t" where
  "example_table =
     \<lparr>buckets = [None, None, None, None], number_of_total_buckets = 4,
      number_of_buckets_filled = 0, number_of_collisions = 0, number_of_duplicates = 0,
      hash_function = example_hash, compare_function = example_compare,
      search_function = example_search, free_function = None\<rparr>"

section \<open>Verification\<close>

subsection \<open>Chains\<close>

lemma chain_append:
  "chain nxt p (as @ bs) q \<longleftrightarrow> (\<exists>r. chain nxt p as r \<and> chain nxt r bs q)"
  by (induction as arbitrary: p) (auto split: option.splits)

lemma chain_frame:
  "(\<And>a. a \<in> set as \<Longrightarrow> nxt' a = nxt a) \<Longrightarrow> chain nxt' p as q = chain nxt p as q"
  by (induction as arbitrary: p) (auto split: option.splits)

lemma chain_snoc:
  "chain nxt p (as @ [a]) q \<longleftrightarrow> chain nxt p as (Some a) \<and> nxt a = Some q"
  by (auto simp: chain_append split: option.splits)

lemma chain_allocated:
  "chain nxt p as q \<Longrightarrow> a \<in> set as \<Longrightarrow> nxt a \<noteq> None"
  by (induction as arbitrary: p) (auto split: option.splits)

lemma chain_head:
  "chain nxt p as q \<Longrightarrow> as \<noteq> [] \<Longrightarrow> p = Some (hd as)"
  by (cases as) auto

lemma chain_nth_next:
  "chain nxt p as q \<Longrightarrow> Suc k < length as \<Longrightarrow> nxt (as ! k) = Some (Some (as ! Suc k))"
proof (induction as arbitrary: p k)
  case Nil
  then show ?case by simp
next
  case (Cons a as)
  then obtain p' where p': "nxt a = Some p'" "chain nxt p' as q"
    by (auto split: option.splits)
  show ?case
  proof (cases k)
    case 0
    with Cons.prems p' show ?thesis by (cases as) auto
  next
    case (Suc j)
    with Cons.prems Cons.IH [OF p'(2), of j] show ?thesis by simp
  qed
qed

lemma chain_last_next:
  "chain nxt p as q \<Longrightarrow> as \<noteq> [] \<Longrightarrow> nxt (last as) = Some q"
  by (induction as arbitrary: p) (auto split: option.splits)

text \<open>Splitting a chain at position \<open>k\<close>.\<close>

lemma chain_take_drop:
  assumes "chain nxt p as q" "k \<le> length as"
  shows "chain nxt p (take k as) (if k < length as then Some (as ! k) else q) \<and>
         chain nxt (if k < length as then Some (as ! k) else q) (drop k as) q"
proof -
  from assms(1) have "chain nxt p (take k as @ drop k as) q" by simp
  then obtain r where r: "chain nxt p (take k as) r" "chain nxt r (drop k as) q"
    unfolding chain_append by blast
  have "r = (if k < length as then Some (as ! k) else q)"
  proof (cases "k < length as")
    case True
    then have "drop k as \<noteq> []" by simp
    from chain_head [OF r(2) this] True show ?thesis by (simp add: hd_drop_conv_nth)
  next
    case False
    with assms(2) r(2) show ?thesis by simp
  qed
  with r show ?thesis by simp
qed

subsection \<open>Lists of lists\<close>

lemma concat_map_update:
  assumes "i < length xs"
  shows "concat (map g (xs[i := y])) =
         concat (map g (take i xs)) @ g y @ concat (map g (drop (Suc i) xs))"
  using assms by (simp add: upd_conv_take_nth_drop)

lemma concat_map_nth:
  assumes "i < length xs"
  shows "concat (map g xs) =
         concat (map g (take i xs)) @ g (xs ! i) @ concat (map g (drop (Suc i) xs))"
proof -
  from assms have "xs = take i xs @ xs ! i # drop (Suc i) xs" by (rule id_take_nth_drop)
  then have "concat (map g xs) = concat (map g (take i xs @ xs ! i # drop (Suc i) xs))"
    by simp
  then show ?thesis by simp
qed

lemma distinct_concat_update:
  assumes d: "distinct (concat (map g xs))" and i: "i < length xs"
    and dy: "distinct (g y)"
    and new: "\<And>a. a \<in> set (g y) \<Longrightarrow> a \<in> set (g (xs ! i)) \<or> a \<notin> set (concat (map g xs))"
  shows "distinct (concat (map g (xs[i := y])))"
proof -
  let ?L = "concat (map g (take i xs))" and ?R = "concat (map g (drop (Suc i) xs))"
  from d have split: "distinct (?L @ g (xs ! i) @ ?R)"
    using concat_map_nth [OF i, of g] by simp
  have all: "set (concat (map g xs)) = set ?L \<union> set (g (xs ! i)) \<union> set ?R"
    using concat_map_nth [OF i, of g] by (metis append_assoc set_append)
  have "set (g y) \<inter> set ?L = {}"
  proof (rule ccontr)
    assume "set (g y) \<inter> set ?L \<noteq> {}"
    then obtain a where a: "a \<in> set (g y)" "a \<in> set ?L" by blast
    from new [OF a(1)] a(2) all split show False by auto
  qed
  moreover have "set (g y) \<inter> set ?R = {}"
  proof (rule ccontr)
    assume "set (g y) \<inter> set ?R \<noteq> {}"
    then obtain a where a: "a \<in> set (g y)" "a \<in> set ?R" by blast
    from new [OF a(1)] a(2) all split show False by auto
  qed
  ultimately have "distinct (?L @ g y @ ?R)"
    using split dy by auto
  then show ?thesis by (simp add: concat_map_update [OF i])
qed

lemma set_concat_update:
  assumes "i < length xs"
  shows "set (concat (map g (xs[i := y]))) \<subseteq> set (concat (map g xs)) \<union> set (g y)"
proof -
  have "set (take i xs) \<subseteq> set xs" "set (drop (Suc i) xs) \<subseteq> set xs"
    by (auto dest: in_set_takeD in_set_dropD)
  then show ?thesis unfolding concat_map_update [OF assms] by auto
qed

lemma length_concat_update:
  assumes "i < length xs"
  shows "length (concat (map g (xs[i := y]))) + length (g (xs ! i)) =
         length (concat (map g xs)) + length (g y)"
  unfolding concat_map_update [OF assms] using concat_map_nth [OF assms, of g] by simp

lemma disjoint_slots:
  assumes d: "distinct (concat (map g xs))" and i: "i < length xs" and j: "j < length xs"
    and ij: "i \<noteq> j" and a: "a \<in> set (g (xs ! i))"
  shows "a \<notin> set (g (xs ! j))"
proof
  assume b: "a \<in> set (g (xs ! j))"
  let ?L = "concat (map g (take i xs))" and ?R = "concat (map g (drop (Suc i) xs))"
  from d have split: "distinct (?L @ g (xs ! i) @ ?R)"
    using concat_map_nth [OF i, of g] by simp
  show False
  proof (cases "j < i")
    case True
    then have "xs ! j \<in> set (take i xs)"
      using i by (metis in_set_conv_nth length_take min.absorb2 less_imp_le nth_take)
    with b have "a \<in> set ?L" by auto
    with a split show False by auto
  next
    case False
    with ij have lt: "i < j" by simp
    then have "xs ! j = drop (Suc i) xs ! (j - Suc i)" using j by simp
    moreover have "j - Suc i < length (drop (Suc i) xs)" using lt j by simp
    ultimately have "xs ! j \<in> set (drop (Suc i) xs)" by (metis nth_mem)
    with b have "a \<in> set ?R" by auto
    with a split show False by auto
  qed
qed

lemma in_concat_nth:
  "i < length xs \<Longrightarrow> a \<in> set (g (xs ! i)) \<Longrightarrow> a \<in> set (concat (map g xs))"
  by auto

subsection \<open>Frames\<close>

lemma fill_ok_frame:
  assumes "fill_ok fdp dn fd" "fdp' (fst fd) = fdp (fst fd)"
    "\<And>d. d \<in> set (snd fd) \<Longrightarrow> dn' d = dn d"
  shows "fill_ok fdp' dn' fd"
proof (cases fd)
  case (Pair f ds)
  with assms(3) have "chain dn' p ds q = chain dn p ds q" for p q
    by (intro chain_frame) simp
  with assms(1,2) Pair show ?thesis by (auto split: option.splits)
qed

lemma slot_ok_frame:
  assumes ok: "slot_ok bm fn fdp dn p s"
    and bm: "\<And>x. x \<in> set (slot_buckets s) \<Longrightarrow> bm' x = bm x"
    and fn: "\<And>x. x \<in> set (slot_fills s) \<Longrightarrow> fn' x = fn x"
    and fdp: "\<And>x. x \<in> set (slot_fills s) \<Longrightarrow> fdp' x = fdp x"
    and dn: "\<And>x. x \<in> set (slot_dups s) \<Longrightarrow> dn' x = dn x"
  shows "slot_ok bm' fn' fdp' dn' p s"
proof (cases s)
  case None
  with ok show ?thesis by simp
next
  case (Some bf)
  obtain b fds where bf: "bf = (b, fds)" by (cases bf)
  from fn Some bf have ch: "chain fn' q (map fst fds) r = chain fn q (map fst fds) r" for q r
    by (intro chain_frame) simp
  have "fill_ok fdp' dn' fd" if "fd \<in> set fds" for fd
  proof (rule fill_ok_frame)
    from ok Some bf that show "fill_ok fdp dn fd" by (simp add: list_all_iff)
    from that show "fdp' (fst fd) = fdp (fst fd)" using fdp Some bf by simp
    fix d assume "d \<in> set (snd fd)"
    with that show "dn' d = dn d" using dn Some bf by auto
  qed
  then have "list_all (fill_ok fdp' dn') fds" by (simp add: list_all_iff)
  moreover from bm Some bf have "bm' b = bm b" by simp
  ultimately show ?thesis using ok Some bf ch by (auto split: option.splits)
qed

lemma slots_ok_update:
  assumes all: "list_all2 (slot_ok bm fn fdp dn) ps sh"
    and i: "i < length sh"
    and db: "distinct (concat (map slot_buckets sh))"
    and df: "distinct (concat (map slot_fills sh))"
    and dd: "distinct (concat (map slot_dups sh))"
    and new: "slot_ok bm' fn' fdp' dn' p' s'"
    and bm: "\<And>x. x \<in> set (concat (map slot_buckets sh)) \<Longrightarrow>
               x \<notin> set (slot_buckets (sh ! i)) \<Longrightarrow> bm' x = bm x"
    and fn: "\<And>x. x \<in> set (concat (map slot_fills sh)) \<Longrightarrow>
               x \<notin> set (slot_fills (sh ! i)) \<Longrightarrow> fn' x = fn x"
    and fdp: "\<And>x. x \<in> set (concat (map slot_fills sh)) \<Longrightarrow>
               x \<notin> set (slot_fills (sh ! i)) \<Longrightarrow> fdp' x = fdp x"
    and dn: "\<And>x. x \<in> set (concat (map slot_dups sh)) \<Longrightarrow>
               x \<notin> set (slot_dups (sh ! i)) \<Longrightarrow> dn' x = dn x"
  shows "list_all2 (slot_ok bm' fn' fdp' dn') (ps[i := p']) (sh[i := s'])"
proof -
  from all have len: "length ps = length sh" by (rule list_all2_lengthD)
  have "slot_ok bm' fn' fdp' dn' (ps[i := p'] ! j) (sh[i := s'] ! j)" if j: "j < length sh" for j
  proof (cases "j = i")
    case True
    with new i len show ?thesis by simp
  next
    case False
    from all j len have ok: "slot_ok bm fn fdp dn (ps ! j) (sh ! j)"
      by (simp add: list_all2_conv_all_nth)
    have "slot_ok bm' fn' fdp' dn' (ps ! j) (sh ! j)"
    proof (rule slot_ok_frame [OF ok])
      fix x assume x: "x \<in> set (slot_buckets (sh ! j))"
      from disjoint_slots [OF db j i False x] in_concat_nth [where g = slot_buckets, OF j x]
      show "bm' x = bm x" by (rule bm [rotated])
    next
      fix x assume x: "x \<in> set (slot_fills (sh ! j))"
      from disjoint_slots [OF df j i False x] in_concat_nth [where g = slot_fills, OF j x]
      show "fn' x = fn x" by (rule fn [rotated])
      from disjoint_slots [OF df j i False x] in_concat_nth [where g = slot_fills, OF j x]
      show "fdp' x = fdp x" by (rule fdp [rotated])
    next
      fix x assume x: "x \<in> set (slot_dups (sh ! j))"
      from disjoint_slots [OF dd j i False x] in_concat_nth [where g = slot_dups, OF j x]
      show "dn' x = dn x" by (rule dn [rotated])
    qed
    with False show ?thesis by simp
  qed
  with len show ?thesis by (simp add: list_all2_conv_all_nth)
qed

subsection \<open>A new fill node in a chain\<close>

lemma slot_ok_new_fill:
  assumes ok: "slot_ok bm fn fdp dn p (Some (b, fds))"
    and dist: "distinct (map fst fds)"
    and fresh: "a \<notin> set (map fst fds)"
    and k: "k \<le> length fds"
    and bk: "bm b = Some bk"
    and bk': "bm' b = Some bk'"
    and first: "first_fill bk' = (if k = 0 then Some a else first_fill bk)"
    and last: "last_fill bk' = (if k < length fds then last_fill bk else Some a)"
    and fna: "fn' a = Some (if k < length fds then Some (fst (fds ! k)) else None)"
    and fnp: "0 < k \<Longrightarrow> fn' (fst (fds ! (k - 1))) = Some (Some a)"
    and fn: "\<And>x. x \<in> set (map fst fds) \<Longrightarrow> k = 0 \<or> x \<noteq> fst (fds ! (k - 1)) \<Longrightarrow> fn' x = fn x"
    and fdpa: "fdp' a = Some (None, None)"
    and fdp: "\<And>x. x \<in> set (map fst fds) \<Longrightarrow> fdp' x = fdp x"
    and dn: "\<And>d. d \<in> set (concat (map snd fds)) \<Longrightarrow> dn' d = dn d"
  shows "slot_ok bm' fn' fdp' dn' p (Some (b, take k fds @ (a, []) # drop k fds))"
proof -
  let ?fs = "map fst fds"
  let ?cur = "if k < length fds then Some (fst (fds ! k)) else None"
  from ok bk have p: "p = Some b" and ne: "fds \<noteq> []"
    and ch: "chain fn (first_fill bk) ?fs None"
    and lf: "last_fill bk = Some (fst (last fds))"
    and fo: "list_all (fill_ok fdp dn) fds"
    by simp_all
  from k have k': "k \<le> length ?fs" by simp
  from chain_take_drop [OF ch k'] k
  have pre: "chain fn (first_fill bk) (take k ?fs) ?cur"
    and suf: "chain fn ?cur (drop k ?fs) None"
    by (simp_all split: if_splits)
  have suf': "chain fn' ?cur (drop k ?fs) None"
  proof -
    have "fn' x = fn x" if "x \<in> set (drop k ?fs)" for x
    proof (rule fn)
      from that show "x \<in> set ?fs" by (rule in_set_dropD)
      show "k = 0 \<or> x \<noteq> fst (fds ! (k - 1))"
      proof (cases k)
        case 0 then show ?thesis by simp
      next
        case (Suc j)
        from dist have "distinct (take k ?fs @ drop k ?fs)" by simp
        then have "set (take k ?fs) \<inter> set (drop k ?fs) = {}" by (simp only: distinct_append)
        moreover have "?fs ! j \<in> set (take k ?fs)"
          using Suc k' by (metis in_set_conv_nth length_take lessI min.absorb2 nth_take)
        ultimately have "x \<noteq> ?fs ! j" using that by auto
        moreover have "?fs ! j = fst (fds ! j)" using Suc k by simp
        ultimately show ?thesis using Suc by simp
      qed
    qed
    then have "chain fn' ?cur (drop k ?fs) None = chain fn ?cur (drop k ?fs) None"
      by (intro chain_frame) simp
    with suf show ?thesis by simp
  qed
  have new_chain: "chain fn' (first_fill bk') (take k ?fs @ a # drop k ?fs) None"
  proof (cases k)
    case 0
    with pre first fna suf' show ?thesis by simp
  next
    case (Suc j)
    then have j: "j < length ?fs" using k' by simp
    have tk: "take k ?fs = take j ?fs @ [?fs ! j]"
      using Suc j by (simp add: take_Suc_conv_app_nth)
    from pre tk have pre1: "chain fn (first_fill bk) (take j ?fs) (Some (?fs ! j))"
      by (simp add: chain_snoc)
    have "fn' x = fn x" if "x \<in> set (take j ?fs)" for x
    proof (rule fn)
      from that show "x \<in> set ?fs" by (rule in_set_takeD)
      from dist have "distinct (take k ?fs)" by simp
      with tk have "?fs ! j \<notin> set (take j ?fs)" by simp
      with that have "x \<noteq> ?fs ! j" by auto
      then show "k = 0 \<or> x \<noteq> fst (fds ! (k - 1))" using Suc j by simp
    qed
    then have "chain fn' (first_fill bk) (take j ?fs) (Some (?fs ! j)) =
               chain fn (first_fill bk) (take j ?fs) (Some (?fs ! j))"
      by (intro chain_frame) simp
    with pre1 have pre1': "chain fn' (first_fill bk) (take j ?fs) (Some (?fs ! j))" by simp
    from fnp Suc j have "fn' (?fs ! j) = Some (Some a)" by simp
    with pre1' have "chain fn' (first_fill bk) (take k ?fs) (Some a)"
      by (simp add: tk chain_snoc)
    moreover from fna suf' have "chain fn' (Some a) (a # drop k ?fs) None" by simp
    ultimately show ?thesis using first Suc by (auto simp: chain_append)
  qed
  have new_last: "last_fill bk' = Some (fst (last (take k fds @ (a, []) # drop k fds)))"
  proof (cases "k < length fds")
    case True
    then have "last (take k fds @ (a, []) # drop k fds) = last fds" by simp
    with True last lf show ?thesis by simp
  next
    case False
    with k last show ?thesis by simp
  qed
  have old: "fill_ok fdp' dn' fd" if "fd \<in> set fds" for fd
  proof (rule fill_ok_frame)
    from fo that show "fill_ok fdp dn fd" by (simp add: list_all_iff)
    from that show "fdp' (fst fd) = fdp (fst fd)" by (intro fdp) simp
    fix d assume "d \<in> set (snd fd)"
    with that show "dn' d = dn d" by (intro dn) auto
  qed
  have "list_all (fill_ok fdp' dn') (take k fds @ (a, []) # drop k fds)"
    using old fdpa by (auto simp: list_all_iff dest: in_set_takeD in_set_dropD)
  with p bk' new_chain new_last show ?thesis by (simp add: take_map drop_map)
qed

subsection \<open>A new duplicate node behind a fill node\<close>

lemma fill_ok_new_dup:
  assumes ok: "fill_ok fdp dn (x, ds)"
    and dist: "distinct ds" and fresh: "a \<notin> set ds"
    and dna: "dn' a = Some None"
    and dnl: "ds \<noteq> [] \<Longrightarrow> dn' (last ds) = Some (Some a)"
    and dn: "\<And>d. d \<in> set ds \<Longrightarrow> ds = [] \<or> d \<noteq> last ds \<Longrightarrow> dn' d = dn d"
    and fdp: "fdp' x = Some (if ds = [] then Some a else fst (the (fdp x)), Some a)"
  shows "fill_ok fdp' dn' (x, ds @ [a])"
proof (cases "ds = []")
  case True
  with dna fdp show ?thesis by simp
next
  case False
  then obtain ds0 l where ds: "ds = ds0 @ [l]" by (metis rev_exhaust)
  from ok obtain fd ld where f: "fdp x = Some (fd, ld)" "chain dn fd ds None"
    by (auto split: option.splits)
  from f(2) ds have pre: "chain dn fd ds0 (Some l)" by (simp add: chain_snoc)
  have "dn' d = dn d" if "d \<in> set ds0" for d
    using that dist ds by (intro dn) auto
  then have "chain dn' fd ds0 (Some l) = chain dn fd ds0 (Some l)"
    by (intro chain_frame) simp
  with pre have "chain dn' fd ds0 (Some l)" by simp
  moreover from dnl ds have "dn' l = Some (Some a)" by simp
  ultimately have "chain dn' fd (ds @ [a]) None"
    using dna ds by (auto simp: chain_append)
  with fdp f False show ?thesis by simp
qed

lemma slot_ok_new_dup:
  assumes ok: "slot_ok bm fn fdp dn p (Some (b, fds))"
    and k: "k < length fds" and at: "fds ! k = (x, ds)"
    and distf: "distinct (map fst fds)"
    and distd: "distinct (concat (map snd fds))"
    and fresh: "a \<notin> set (concat (map snd fds))"
    and dna: "dn' a = Some None"
    and dnl: "ds \<noteq> [] \<Longrightarrow> dn' (last ds) = Some (Some a)"
    and dn: "\<And>d. d \<in> set (concat (map snd fds)) \<Longrightarrow> ds = [] \<or> d \<noteq> last ds \<Longrightarrow> dn' d = dn d"
    and fdpx: "fdp' x = Some (if ds = [] then Some a else fst (the (fdp x)), Some a)"
    and fdp: "\<And>y. y \<in> set (map fst fds) \<Longrightarrow> y \<noteq> x \<Longrightarrow> fdp' y = fdp y"
    and bm: "bm' b = bm b"
    and fn: "\<And>y. y \<in> set (map fst fds) \<Longrightarrow> fn' y = fn y"
  shows "slot_ok bm' fn' fdp' dn' p (Some (b, fds[k := (x, ds @ [a])]))"
proof -
  let ?fds' = "fds[k := (x, ds @ [a])]"
  from k at have fst_same: "map fst ?fds' = map fst fds"
    by (simp add: map_update) (metis fst_conv list_update_id map_update)
  from k at have mem: "(x, ds) \<in> set fds" by (metis nth_mem)
  have ds_sub: "set ds \<subseteq> set (concat (map snd fds))" using mem by force
  from ok have fo: "\<forall>fd\<in>set fds. fill_ok fdp dn fd" by (simp add: list_all_iff)
  from fn have ch: "chain fn' q (map fst fds) r = chain fn q (map fst fds) r" for q r
    by (intro chain_frame) simp
  have last_same: "fst (last ?fds') = fst (last fds)"
  proof -
    from ok have "fds \<noteq> []" by simp
    then have "last (map fst ?fds') = last (map fst fds)" by (simp only: fst_same)
    with \<open>fds \<noteq> []\<close> show ?thesis by (simp add: last_map)
  qed
  have each: "fill_ok fdp' dn' (?fds' ! j)" if j: "j < length fds" for j
  proof (cases "j = k")
    case True
    have "fill_ok fdp' dn' (x, ds @ [a])"
    proof (rule fill_ok_new_dup)
      from fo mem show "fill_ok fdp dn (x, ds)" by blast
      from distd k at show "distinct ds"
        using concat_map_nth [OF k, of snd] by (metis distinct_append snd_conv)
      from fresh ds_sub show "a \<notin> set ds" by auto
      show "dn' a = Some None" by (rule dna)
      show "ds \<noteq> [] \<Longrightarrow> dn' (last ds) = Some (Some a)" by (rule dnl)
      show "fdp' x = Some (if ds = [] then Some a else fst (the (fdp x)), Some a)"
        by (rule fdpx)
      fix d assume "d \<in> set ds" "ds = [] \<or> d \<noteq> last ds"
      with ds_sub show "dn' d = dn d" by (intro dn) auto
    qed
    with True k show ?thesis by simp
  next
    case False
    obtain y ds' where y: "fds ! j = (y, ds')" by (cases "fds ! j")
    from j y have mem': "(y, ds') \<in> set fds" by (metis nth_mem)
    have "y \<noteq> x"
    proof
      assume "y = x"
      with y at have "map fst fds ! j = map fst fds ! k" using j k by simp
      moreover have "j < length (map fst fds)" "k < length (map fst fds)" using j k by simp_all
      ultimately have "j = k" using distf by (simp only: nth_eq_iff_index_eq)
      with False show False by simp
    qed
    have "fill_ok fdp' dn' (y, ds')"
    proof (rule fill_ok_frame)
      from fo mem' show "fill_ok fdp dn (y, ds')" by blast
      from mem' \<open>y \<noteq> x\<close> show "fdp' (fst (y, ds')) = fdp (fst (y, ds'))"
        by (simp, intro fdp) force+
      fix d assume d: "d \<in> set (snd (y, ds'))"
      then have d1: "d \<in> set (snd (fds ! j))" using y by simp
      have "d \<notin> set (snd (fds ! k))"
        by (rule disjoint_slots [OF distd j k False d1])
      then have "d \<notin> set ds" using at by simp
      then have "ds = [] \<or> d \<noteq> last ds" by auto
      moreover from d mem' have "d \<in> set (concat (map snd fds))" by force
      ultimately show "dn' d = dn d" by (intro dn)
    qed
    with False y show ?thesis by simp
  qed
  then have "list_all (fill_ok fdp' dn') ?fds'" by (simp add: list_all_length)
  with ok bm ch last_same fst_same show ?thesis
    by (auto split: option.splits)
qed

subsection \<open>Facts that a represented table provides\<close>

lemma represents_length: "represents t m sh \<Longrightarrow> length sh = length (buckets t)"
  by (auto simp: represents_def dest: list_all2_lengthD)

lemma represents_slot:
  "represents t m sh \<Longrightarrow> i < length sh \<Longrightarrow>
   slot_ok (bucket_mem m) (fill_next m) (fill_dup_ptrs m) (dup_next m) (buckets t ! i) (sh ! i)"
  by (simp add: represents_def list_all2_conv_all_nth)

lemma distinct_concat_nth:
  assumes "distinct (concat (map g xs))" "i < length xs"
  shows "distinct (g (xs ! i))"
  using assms concat_map_nth [OF assms(2), of g] by (metis distinct_append)

lemma represents_distinct:
  assumes "represents t m sh" "i < length sh"
  shows "distinct (slot_buckets (sh ! i))" "distinct (slot_fills (sh ! i))"
    "distinct (slot_dups (sh ! i))"
  using assms by (auto simp: represents_def intro: distinct_concat_nth)

lemma represents_below:
  assumes "represents t m sh" "i < length sh"
  shows "x \<in> set (slot_buckets (sh ! i)) \<Longrightarrow> x < next_addr m"
    "x \<in> set (slot_fills (sh ! i)) \<Longrightarrow> x < next_addr m"
    "x \<in> set (slot_dups (sh ! i)) \<Longrightarrow> x < next_addr m"
proof -
  from assms(1) have b: "\<forall>a\<in>set (concat (map slot_buckets sh)). a < next_addr m"
    and f: "\<forall>a\<in>set (concat (map slot_fills sh)). a < next_addr m"
    and d: "\<forall>a\<in>set (concat (map slot_dups sh)). a < next_addr m"
    by (simp_all add: represents_def list_all_iff)
  show "x \<in> set (slot_buckets (sh ! i)) \<Longrightarrow> x < next_addr m"
    using b in_concat_nth [where g = slot_buckets, OF assms(2)] by blast
  show "x \<in> set (slot_fills (sh ! i)) \<Longrightarrow> x < next_addr m"
    using f in_concat_nth [where g = slot_fills, OF assms(2)] by blast
  show "x \<in> set (slot_dups (sh ! i)) \<Longrightarrow> x < next_addr m"
    using d in_concat_nth [where g = slot_dups, OF assms(2)] by blast
qed

text \<open>A call that leaves the nodes alone keeps the shape.\<close>

lemma represents_frame:
  assumes "represents t m sh"
    "bucket_mem m' = bucket_mem m" "fill_mem m' = fill_mem m" "dup_mem m' = dup_mem m"
    "next_addr m \<le> next_addr m'"
    "buckets t' = buckets t" "number_of_total_buckets t' = number_of_total_buckets t"
  shows "represents t' m' sh"
proof -
  from assms(2-4) have eq: "fill_next m' = fill_next m" "fill_dup_ptrs m' = fill_dup_ptrs m"
    "dup_next m' = dup_next m"
    by (simp_all add: fill_next_def fill_dup_ptrs_def dup_next_def fun_eq_iff)
  have below: "list_all (\<lambda>a. a < next_addr m') xs" if "list_all (\<lambda>a. a < next_addr m) xs" for xs
    using that assms(5) by (induction xs) auto
  from assms(1) show ?thesis
    unfolding represents_def eq assms(2,6,7)
    by (intro conjI below) simp_all
qed

text \<open>The shape after one slot and the nodes of that slot have changed.\<close>

lemma represents_update:
  assumes rep: "represents t m sh" and i: "i < length sh"
    and new: "slot_ok (bucket_mem m') (fill_next m') (fill_dup_ptrs m') (dup_next m') p' s'"
    and bm: "\<And>x. x < next_addr m \<Longrightarrow> x \<notin> set (slot_buckets (sh ! i)) \<Longrightarrow>
               bucket_mem m' x = bucket_mem m x"
    and fm: "\<And>x. x < next_addr m \<Longrightarrow> x \<notin> set (slot_fills (sh ! i)) \<Longrightarrow>
               fill_mem m' x = fill_mem m x"
    and dm: "\<And>x. x < next_addr m \<Longrightarrow> x \<notin> set (slot_dups (sh ! i)) \<Longrightarrow>
               dup_mem m' x = dup_mem m x"
    and db: "distinct (slot_buckets s')" and df: "distinct (slot_fills s')"
    and dd: "distinct (slot_dups s')"
    and nb: "\<And>x. x \<in> set (slot_buckets s') \<Longrightarrow>
               x \<in> set (slot_buckets (sh ! i)) \<or> next_addr m \<le> x \<and> x < next_addr m'"
    and nf: "\<And>x. x \<in> set (slot_fills s') \<Longrightarrow>
               x \<in> set (slot_fills (sh ! i)) \<or> next_addr m \<le> x \<and> x < next_addr m'"
    and nd: "\<And>x. x \<in> set (slot_dups s') \<Longrightarrow>
               x \<in> set (slot_dups (sh ! i)) \<or> next_addr m \<le> x \<and> x < next_addr m'"
    and mono: "next_addr m \<le> next_addr m'"
    and bs: "buckets t' = (buckets t)[i := p']"
    and n: "number_of_total_buckets t' = number_of_total_buckets t"
  shows "represents t' m' (sh[i := s'])"
proof -
  from rep have len: "length (buckets t) = unat (number_of_total_buckets t)"
    and all: "list_all2 (slot_ok (bucket_mem m) (fill_next m) (fill_dup_ptrs m) (dup_next m))
                (buckets t) sh"
    and distb: "distinct (concat (map slot_buckets sh))"
    and distf: "distinct (concat (map slot_fills sh))"
    and distd: "distinct (concat (map slot_dups sh))"
    and belowb: "\<forall>a\<in>set (concat (map slot_buckets sh)). a < next_addr m"
    and belowf: "\<forall>a\<in>set (concat (map slot_fills sh)). a < next_addr m"
    and belowd: "\<forall>a\<in>set (concat (map slot_dups sh)). a < next_addr m"
    by (simp_all add: represents_def list_all_iff)
  have slots: "list_all2 (slot_ok (bucket_mem m') (fill_next m') (fill_dup_ptrs m') (dup_next m'))
                 ((buckets t)[i := p']) (sh[i := s'])"
  proof (rule slots_ok_update [OF all i distb distf distd new])
    fix x assume "x \<in> set (concat (map slot_buckets sh))" "x \<notin> set (slot_buckets (sh ! i))"
    with belowb show "bucket_mem m' x = bucket_mem m x" by (intro bm) auto
  next
    fix x assume x: "x \<in> set (concat (map slot_fills sh))" "x \<notin> set (slot_fills (sh ! i))"
    with belowf have "fill_mem m' x = fill_mem m x" by (intro fm) auto
    then show "fill_next m' x = fill_next m x" "fill_dup_ptrs m' x = fill_dup_ptrs m x"
      by (simp_all add: fill_next_def fill_dup_ptrs_def)
  next
    fix x assume "x \<in> set (concat (map slot_dups sh))" "x \<notin> set (slot_dups (sh ! i))"
    with belowd have "dup_mem m' x = dup_mem m x" by (intro dm) auto
    then show "dup_next m' x = dup_next m x" by (simp add: dup_next_def)
  qed
  have distb': "distinct (concat (map slot_buckets (sh[i := s'])))"
    using belowb nb by (intro distinct_concat_update [OF distb i db]) fastforce
  have distf': "distinct (concat (map slot_fills (sh[i := s'])))"
    using belowf nf by (intro distinct_concat_update [OF distf i df]) fastforce
  have distd': "distinct (concat (map slot_dups (sh[i := s'])))"
    using belowd nd by (intro distinct_concat_update [OF distd i dd]) fastforce
  have belowb': "\<forall>a\<in>set (concat (map slot_buckets (sh[i := s']))). a < next_addr m'"
  proof
    fix a assume "a \<in> set (concat (map slot_buckets (sh[i := s'])))"
    with set_concat_update [OF i, of slot_buckets s']
    have "a \<in> set (concat (map slot_buckets sh)) \<or> a \<in> set (slot_buckets s')" by auto
    then show "a < next_addr m'"
      using belowb mono nb [of a] represents_below(1) [OF rep i, of a] by fastforce
  qed
  have belowf': "\<forall>a\<in>set (concat (map slot_fills (sh[i := s']))). a < next_addr m'"
  proof
    fix a assume "a \<in> set (concat (map slot_fills (sh[i := s'])))"
    with set_concat_update [OF i, of slot_fills s']
    have "a \<in> set (concat (map slot_fills sh)) \<or> a \<in> set (slot_fills s')" by auto
    then show "a < next_addr m'"
      using belowf mono nf [of a] represents_below(2) [OF rep i, of a] by fastforce
  qed
  have belowd': "\<forall>a\<in>set (concat (map slot_dups (sh[i := s']))). a < next_addr m'"
  proof
    fix a assume "a \<in> set (concat (map slot_dups (sh[i := s'])))"
    with set_concat_update [OF i, of slot_dups s']
    have "a \<in> set (concat (map slot_dups sh)) \<or> a \<in> set (slot_dups s')" by auto
    then show "a < next_addr m'"
      using belowd mono nd [of a] represents_below(3) [OF rep i, of a] by fastforce
  qed
  from len slots distb' distf' distd' belowb' belowf' belowd' bs n
  show ?thesis by (simp add: represents_def list_all_iff)
qed

subsection \<open>The allocator\<close>

lemma calloc_cases [case_names fail ok]:
  obtains "calloc n sz m = (None, m\<lparr>calloc_calls := Suc (calloc_calls m)\<rparr>)"
      "\<not> (calloc_ok m (calloc_calls m) \<and> live_bytes m + n * sz < 2 ^ 64)"
  | "calloc n sz m =
       (Some (next_addr m),
        m\<lparr>next_addr := Suc (next_addr m), live_bytes := live_bytes m + n * sz,
          calloc_calls := Suc (calloc_calls m)\<rparr>)"
      "calloc_ok m (calloc_calls m)" "live_bytes m + n * sz < 2 ^ 64"
  by (cases "calloc_ok m (calloc_calls m) \<and> live_bytes m + n * sz < 2 ^ 64")
     (simp_all add: calloc_def)

lemma calloc_success:
  "calloc_ok m (calloc_calls m) \<Longrightarrow> live_bytes m + n * sz < 2 ^ 64 \<Longrightarrow>
   calloc n sz m =
     (Some (next_addr m),
      m\<lparr>next_addr := Suc (next_addr m), live_bytes := live_bytes m + n * sz,
        calloc_calls := Suc (calloc_calls m)\<rparr>)"
  by (simp add: calloc_def)

subsection \<open>Linking a new fill node\<close>

lemma concat_map_take_drop:
  "concat (map g (take k xs)) @ concat (map g (drop k xs)) = concat (map g xs)"
  by (metis append_take_drop_id concat_append map_append)

lemma slot_fill_allocated:
  assumes "slot_ok bm (fill_next m) fdp dn p (Some (b, fds))" "j < length fds"
  shows "\<exists>f. fill_mem m (fst (fds ! j)) = Some f"
proof -
  from assms(1) obtain bk :: hash_table_bucket_t
    where "chain (fill_next m) (first_fill bk) (map fst fds) None"
    by (cases "bm b") auto
  moreover from assms(2) have "fst (fds ! j) \<in> set (map fst fds)" by (metis length_map nth_map nth_mem)
  ultimately have "fill_next m (fst (fds ! j)) \<noteq> None" by (rule chain_allocated)
  then show ?thesis by (auto simp: fill_next_def)
qed

lemma place_fill_ok:
  assumes rep: "represents t m sh" and i: "i < length sh" and slot: "sh ! i = Some (b, fds)"
    and k: "k \<le> length fds"
    and ok: "calloc_ok m (calloc_calls m)"
    and room: "live_bytes m + sizeof_hash_table_fill_t < 2 ^ 64"
  shows "\<exists>m'. place_fill t m obj b (if k < length fds then Some (fst (fds ! k)) else None)
                 (if k = 0 then None else Some (fst (fds ! (k - 1)))) =
               Some (Inr (1, t\<lparr>number_of_collisions := number_of_collisions t + 1\<rparr>, m')) \<and>
             represents t m' (sh[i := Some (b, take k fds @ (next_addr m, []) # drop k fds)]) \<and>
             fill_obj m' = (fill_obj m)(next_addr m \<mapsto> obj) \<and> dup_obj m' = dup_obj m \<and>
             live_bytes m' = live_bytes m + sizeof_hash_table_fill_t \<and>
             next_addr m' = Suc (next_addr m)"
proof -
  define a where "a = next_addr m"
  define cur where "cur = (if k < length fds then Some (fst (fds ! k)) else None)"
  define N where "N = \<lparr>fill_object = obj, next_fill = cur, first_duplicate = None,
    last_duplicate = None\<rparr>"
  define m1 where "m1 = m\<lparr>next_addr := Suc (next_addr m),
    live_bytes := live_bytes m + 1 * sizeof_hash_table_fill_t,
    calloc_calls := Suc (calloc_calls m)\<rparr>"
  from ok room have ca: "calloc (Suc 0) sizeof_hash_table_fill_t m = (Some a, m1)"
    by (simp add: calloc_success a_def m1_def)
  let ?V = "slot_ok (bucket_mem m) (fill_next m) (fill_dup_ptrs m) (dup_next m)"
  from represents_slot [OF rep i] slot have sok: "?V (buckets t ! i) (Some (b, fds))" by simp
  then obtain bk where bk: "bucket_mem m b = Some bk" and pb: "buckets t ! i = Some b"
    by (cases "bucket_mem m b") auto
  from represents_distinct(2) [OF rep i] slot have dist: "distinct (map fst fds)" by simp
  have below: "x < a" if "x \<in> set (map fst fds)" for x
    using represents_below(2) [OF rep i, of x] slot that by (simp add: a_def)
  then have fresh: "a \<notin> set (map fst fds)" by auto
  have belowb: "b < a" using represents_below(1) [OF rep i, of b] slot by (simp add: a_def)
  define bk1 where "bk1 = (if cur \<noteq> None then bk else bk\<lparr>last_fill := Some a\<rparr>)"
  define bk' where "bk' = (if k = 0 then bk1\<lparr>first_fill := Some a\<rparr> else bk1)"
  define fm' where "fm' = (if k = 0 then (fill_mem m)(a \<mapsto> N)
    else (fill_mem m)(a \<mapsto> N, fst (fds ! (k - 1)) \<mapsto>
           (the (fill_mem m (fst (fds ! (k - 1)))))\<lparr>next_fill := Some a\<rparr>))"
  define m' where "m' = m1\<lparr>fill_mem := fm', bucket_mem := (bucket_mem m)(b \<mapsto> bk')\<rparr>"
  have run: "place_fill t m obj b cur (if k = 0 then None else Some (fst (fds ! (k - 1)))) =
    Some (Inr (1, t\<lparr>number_of_collisions := number_of_collisions t + 1\<rparr>, m'))"
  proof (cases "k = 0")
    case True
    then show ?thesis
      using bk by (simp add: place_fill_def ca Let_def m1_def m'_def fm'_def bk'_def bk1_def N_def)
  next
    case False
    then have j: "k - 1 < length fds" using k by simp
    from slot_fill_allocated [OF sok j] obtain pf
      where pf: "fill_mem m (fst (fds ! (k - 1))) = Some pf" by blast
    have "fst (fds ! (k - 1)) \<noteq> a" using below [of "fst (fds ! (k - 1))"] j by auto
    with False pf bk show ?thesis
      by (simp add: place_fill_def ca Let_def m1_def m'_def fm'_def bk'_def bk1_def N_def)
  qed
  have fm'_other: "fm' x = fill_mem m x" if "x \<noteq> a" "k = 0 \<or> x \<noteq> fst (fds ! (k - 1))" for x
    using that by (auto simp: fm'_def)
  have fm'_a: "fm' a = Some N"
  proof (cases "k = 0")
    case True then show ?thesis by (simp add: fm'_def)
  next
    case False
    then have "k - 1 < length fds" using k by simp
    then have "fst (fds ! (k - 1)) \<noteq> a" using below [of "fst (fds ! (k - 1))"] by auto
    with False show ?thesis by (simp add: fm'_def)
  qed
  have fm'_prev: "fm' (fst (fds ! (k - 1))) =
      Some ((the (fill_mem m (fst (fds ! (k - 1)))))\<lparr>next_fill := Some a\<rparr>)" if "0 < k"
    using that by (simp add: fm'_def)
  have new: "slot_ok (bucket_mem m') (fill_next m') (fill_dup_ptrs m') (dup_next m') (Some b)
               (Some (b, take k fds @ (a, []) # drop k fds))"
  proof (rule slot_ok_new_fill [where bm = "bucket_mem m" and fn = "fill_next m"
        and fdp = "fill_dup_ptrs m" and dn = "dup_next m", OF _ dist fresh k bk])
    from sok pb show "?V (Some b) (Some (b, fds))" by simp
    show "bucket_mem m' b = Some bk'" by (simp add: m'_def)
    show "first_fill bk' = (if k = 0 then Some a else first_fill bk)"
      by (simp add: bk'_def bk1_def)
    from sok bk show "last_fill bk' = (if k < length fds then last_fill bk else Some a)"
      by (auto simp: bk'_def bk1_def cur_def)
    show "fill_next m' a = Some (if k < length fds then Some (fst (fds ! k)) else None)"
      by (simp add: fill_next_def m'_def fm'_a N_def cur_def)
    show "fill_next m' (fst (fds ! (k - 1))) = Some (Some a)" if "0 < k"
      using fm'_prev [OF that] by (simp add: fill_next_def m'_def)
    show "fill_next m' x = fill_next m x"
      if "x \<in> set (map fst fds)" "k = 0 \<or> x \<noteq> fst (fds ! (k - 1))" for x
    proof -
      from that(1) fresh have "x \<noteq> a" by blast
      from fm'_other [OF this that(2)] show ?thesis by (simp add: fill_next_def m'_def)
    qed
    show "fill_dup_ptrs m' a = Some (None, None)"
      by (simp add: fill_dup_ptrs_def m'_def fm'_a N_def)
    show "fill_dup_ptrs m' x = fill_dup_ptrs m x" if x: "x \<in> set (map fst fds)" for x
    proof (cases "k = 0 \<or> x \<noteq> fst (fds ! (k - 1))")
      case True
      from x fresh have "x \<noteq> a" by blast
      from fm'_other [OF this True] show ?thesis by (simp add: fill_dup_ptrs_def m'_def)
    next
      case False
      then have k0: "0 < k" and xe: "x = fst (fds ! (k - 1))" by auto
      then have j: "k - 1 < length fds" using k by simp
      from slot_fill_allocated [OF sok j] obtain pf
        where pf: "fill_mem m (fst (fds ! (k - 1))) = Some pf" by blast
      with fm'_prev [OF k0] xe show ?thesis
        by (simp add: fill_dup_ptrs_def m'_def m1_def)
    qed
    show "dup_next m' d = dup_next m d" for d
      by (simp add: dup_next_def m'_def m1_def)
  qed
  have rep': "represents t m' (sh[i := Some (b, take k fds @ (a, []) # drop k fds)])"
  proof (rule represents_update [OF rep i new])
    show "bucket_mem m' x = bucket_mem m x" if "x \<notin> set (slot_buckets (sh ! i))" for x
      using that slot by (simp add: m'_def m1_def)
    show "fill_mem m' x = fill_mem m x"
      if "x < next_addr m" "x \<notin> set (slot_fills (sh ! i))" for x
    proof -
      from that(1) have "x \<noteq> a" by (simp add: a_def)
      moreover have "k = 0 \<or> x \<noteq> fst (fds ! (k - 1))"
      proof (cases "k = 0")
        case False
        then have "k - 1 < length fds" using k by simp
        then have "fst (fds ! (k - 1)) \<in> set (map fst fds)"
          by (metis length_map nth_map nth_mem)
        with that(2) slot show ?thesis by auto
      qed simp
      ultimately show ?thesis using fm'_other [of x] by (simp add: m'_def)
    qed
    show "dup_mem m' x = dup_mem m x" for x by (simp add: m'_def m1_def)
    show "distinct (slot_buckets (Some (b, take k fds @ (a, []) # drop k fds)))" by simp
    have "distinct (take k (map fst fds) @ a # drop k (map fst fds))"
    proof -
      from dist have "set (take k (map fst fds)) \<inter> set (drop k (map fst fds)) = {}"
        by (rule set_take_disj_set_drop_if_distinct) simp
      moreover have "a \<notin> set (take k (map fst fds))" "a \<notin> set (drop k (map fst fds))"
        using fresh by (auto dest: in_set_takeD in_set_dropD)
      moreover from dist have "distinct (take k (map fst fds))" "distinct (drop k (map fst fds))"
        by simp_all
      ultimately show ?thesis by auto
    qed
    then show "distinct (slot_fills (Some (b, take k fds @ (a, []) # drop k fds)))"
      by (simp add: take_map drop_map)
    have "concat (map snd (take k fds @ (a, []) # drop k fds)) = concat (map snd fds)"
      by (simp add: concat_map_take_drop)
    moreover from represents_distinct(3) [OF rep i] slot
    have "distinct (concat (map snd fds))" by simp
    ultimately show "distinct (slot_dups (Some (b, take k fds @ (a, []) # drop k fds)))"
      by simp
    show "x \<in> set (slot_buckets (sh ! i)) \<or> next_addr m \<le> x \<and> x < next_addr m'"
      if "x \<in> set (slot_buckets (Some (b, take k fds @ (a, []) # drop k fds)))" for x
      using that slot by simp
    show "x \<in> set (slot_fills (sh ! i)) \<or> next_addr m \<le> x \<and> x < next_addr m'"
      if "x \<in> set (slot_fills (Some (b, take k fds @ (a, []) # drop k fds)))" for x
      using that slot by (auto simp: a_def m'_def m1_def dest: in_set_takeD in_set_dropD)
    show "x \<in> set (slot_dups (sh ! i)) \<or> next_addr m \<le> x \<and> x < next_addr m'"
      if "x \<in> set (slot_dups (Some (b, take k fds @ (a, []) # drop k fds)))" for x
      using that slot by (auto dest: in_set_takeD in_set_dropD)
    show "next_addr m \<le> next_addr m'" by (simp add: m'_def m1_def)
    from pb i represents_length [OF rep] show "buckets t = (buckets t)[i := Some b]"
      by (metis list_update_id)
    show "number_of_total_buckets t = number_of_total_buckets t" ..
  qed
  have "fill_obj m' x = ((fill_obj m)(a \<mapsto> obj)) x" for x
  proof (cases "x = a")
    case True
    then show ?thesis by (simp add: fill_obj_def m'_def fm'_a N_def)
  next
    case xa: False
    show ?thesis
    proof (cases "k = 0 \<or> x \<noteq> fst (fds ! (k - 1))")
      case True
      with fm'_other [of x] xa show ?thesis by (simp add: fill_obj_def m'_def)
    next
      case False
      then have k0: "0 < k" and xe: "x = fst (fds ! (k - 1))" by auto
      then have j: "k - 1 < length fds" using k by simp
      from slot_fill_allocated [OF sok j] obtain pf
        where pf: "fill_mem m (fst (fds ! (k - 1))) = Some pf" by blast
      with fm'_prev [OF k0] xe xa show ?thesis
        by (simp add: fill_obj_def m'_def)
    qed
  qed
  then have "fill_obj m' = (fill_obj m)(a \<mapsto> obj)" by (rule ext)
  moreover have "dup_obj m' = dup_obj m" by (simp add: dup_obj_def m'_def m1_def fun_eq_iff)
  moreover have "live_bytes m' = live_bytes m + sizeof_hash_table_fill_t"
    "next_addr m' = Suc (next_addr m)" by (simp_all add: m'_def m1_def)
  ultimately show ?thesis using run rep' unfolding cur_def a_def by blast
qed

subsection \<open>Linking a new duplicate node\<close>

lemma add_duplicate_ok:
  assumes rep: "represents t m sh" and i: "i < length sh" and slot: "sh ! i = Some (b, fds)"
    and k: "k < length fds" and at: "fds ! k = (x, ds)"
    and fx: "fill_mem m x = Some f"
    and ok: "calloc_ok m (calloc_calls m)"
    and room: "live_bytes m + sizeof_hash_table_duplicate_t < 2 ^ 64"
  shows "\<exists>m'. add_duplicate t m obj x f prev =
               Some (Inr (LoopDone True (Some x) prev
                 (t\<lparr>number_of_duplicates := number_of_duplicates t + 1\<rparr>) m')) \<and>
             represents t m' (sh[i := Some (b, fds[k := (x, ds @ [next_addr m])])]) \<and>
             fill_obj m' = fill_obj m \<and> dup_obj m' = (dup_obj m)(next_addr m \<mapsto> obj) \<and>
             live_bytes m' = live_bytes m + sizeof_hash_table_duplicate_t \<and>
             next_addr m' = Suc (next_addr m)"
proof -
  define a where "a = next_addr m"
  define D where "D = \<lparr>dup_object = obj, next_duplicate = None\<rparr>"
  define m1 where "m1 = m\<lparr>next_addr := Suc (next_addr m),
    live_bytes := live_bytes m + 1 * sizeof_hash_table_duplicate_t,
    calloc_calls := Suc (calloc_calls m)\<rparr>"
  from ok room have ca: "calloc (Suc 0) sizeof_hash_table_duplicate_t m = (Some a, m1)"
    by (simp add: calloc_success a_def m1_def)
  let ?V = "slot_ok (bucket_mem m) (fill_next m) (fill_dup_ptrs m) (dup_next m)"
  from represents_slot [OF rep i] slot have sok: "?V (buckets t ! i) (Some (b, fds))" by simp
  then have pb: "buckets t ! i = Some b" by simp
  from k at have mem: "(x, ds) \<in> set fds" by (metis nth_mem)
  from sok mem have fok: "fill_ok (fill_dup_ptrs m) (dup_next m) (x, ds)"
    by (simp add: list_all_iff del: fill_ok.simps)
  with fx have ch: "chain (dup_next m) (first_duplicate f) ds None"
    and ld: "last_duplicate f = (if ds = [] then None else Some (last ds))"
    by (simp_all add: fill_dup_ptrs_def)
  from represents_distinct(2) [OF rep i] slot have distf: "distinct (map fst fds)" by simp
  from represents_distinct(3) [OF rep i] slot have distd: "distinct (concat (map snd fds))"
    by simp
  have below: "d < a" if "d \<in> set (concat (map snd fds))" for d
    using represents_below(3) [OF rep i, of d] slot that by (simp add: a_def)
  then have fresh: "a \<notin> set (concat (map snd fds))" by auto
  have ds_sub: "set ds \<subseteq> set (concat (map snd fds))" using mem by force
  have xa: "x < a" using represents_below(2) [OF rep i, of x] slot mem by (force simp: a_def)
  define f' where "f' = (if ds = [] then f\<lparr>first_duplicate := Some a, last_duplicate := Some a\<rparr>
    else f\<lparr>last_duplicate := Some a\<rparr>)"
  define dm' where "dm' = (if ds = [] then (dup_mem m)(a \<mapsto> D)
    else (dup_mem m)(a \<mapsto> D, last ds \<mapsto> (the (dup_mem m (last ds)))\<lparr>next_duplicate := Some a\<rparr>))"
  define m' where "m' = m1\<lparr>dup_mem := dm', fill_mem := (fill_mem m)(x \<mapsto> f')\<rparr>"
  have last_alloc: "\<exists>d. dup_mem m (last ds) = Some d" if "ds \<noteq> []"
  proof -
    from that have "last ds \<in> set ds" by simp
    with ch have "dup_next m (last ds) \<noteq> None" by (rule chain_allocated)
    then show ?thesis by (auto simp: dup_next_def)
  qed
  have last_ne: "last ds \<noteq> a" if "ds \<noteq> []"
    using that below [of "last ds"] ds_sub by (metis last_in_set less_irrefl subsetD)
  have run: "add_duplicate t m obj x f prev =
    Some (Inr (LoopDone True (Some x) prev
      (t\<lparr>number_of_duplicates := number_of_duplicates t + 1\<rparr>) m'))"
  proof (cases "ds = []")
    case True
    with ld show ?thesis
      by (simp add: add_duplicate_def ca Let_def m1_def m'_def dm'_def f'_def D_def)
  next
    case False
    from last_alloc [OF False] obtain d where d: "dup_mem m (last ds) = Some d" by blast
    with False ld last_ne [OF False] show ?thesis
      by (simp add: add_duplicate_def ca Let_def m1_def m'_def dm'_def f'_def D_def)
  qed
  have dm'_a: "dm' a = Some D" using last_ne by (auto simp: dm'_def)
  have dm'_last: "dm' (last ds) = Some ((the (dup_mem m (last ds)))\<lparr>next_duplicate := Some a\<rparr>)"
    if "ds \<noteq> []" using that by (simp add: dm'_def)
  have dm'_other: "dm' d = dup_mem m d" if "d \<noteq> a" "ds = [] \<or> d \<noteq> last ds" for d
    using that by (auto simp: dm'_def)
  have new: "slot_ok (bucket_mem m') (fill_next m') (fill_dup_ptrs m') (dup_next m') (Some b)
               (Some (b, fds[k := (x, ds @ [a])]))"
  proof (rule slot_ok_new_dup [where bm = "bucket_mem m" and fn = "fill_next m"
        and fdp = "fill_dup_ptrs m" and dn = "dup_next m", OF _ k at distf distd fresh])
    from sok pb show "?V (Some b) (Some (b, fds))" by simp
    show "dup_next m' a = Some None" by (simp add: dup_next_def m'_def dm'_a D_def)
    show "dup_next m' (last ds) = Some (Some a)" if "ds \<noteq> []"
      using dm'_last [OF that] by (simp add: dup_next_def m'_def)
    show "dup_next m' d = dup_next m d"
      if "d \<in> set (concat (map snd fds))" "ds = [] \<or> d \<noteq> last ds" for d
    proof -
      from that(1) fresh have "d \<noteq> a" by blast
      from dm'_other [OF this that(2)] show ?thesis by (simp add: dup_next_def m'_def)
    qed
    show "fill_dup_ptrs m' x =
      Some (if ds = [] then Some a else fst (the (fill_dup_ptrs m x)), Some a)"
      using fx by (simp add: fill_dup_ptrs_def m'_def f'_def)
    show "fill_dup_ptrs m' y = fill_dup_ptrs m y" if "y \<noteq> x" for y
      using that by (simp add: fill_dup_ptrs_def m'_def m1_def)
    show "bucket_mem m' b = bucket_mem m b" by (simp add: m'_def m1_def)
    show "fill_next m' y = fill_next m y" for y
      using fx by (simp add: fill_next_def m'_def m1_def f'_def)
  qed
  have rep': "represents t m' (sh[i := Some (b, fds[k := (x, ds @ [a])])])"
  proof (rule represents_update [OF rep i new])
    show "bucket_mem m' y = bucket_mem m y" for y by (simp add: m'_def m1_def)
    show "fill_mem m' y = fill_mem m y" if "y \<notin> set (slot_fills (sh ! i))" for y
    proof -
      from that slot mem have "y \<noteq> x" by force
      then show ?thesis by (simp add: m'_def m1_def)
    qed
    show "dup_mem m' y = dup_mem m y"
      if "y < next_addr m" "y \<notin> set (slot_dups (sh ! i))" for y
    proof -
      from that(1) have "y \<noteq> a" by (simp add: a_def)
      moreover have "ds = [] \<or> y \<noteq> last ds"
      proof (cases "ds = []")
        case False
        then have "last ds \<in> set ds" by simp
        with ds_sub have "last ds \<in> set (concat (map snd fds))" by blast
        with that(2) slot show ?thesis by auto
      qed simp
      ultimately show ?thesis using dm'_other [of y] by (simp add: m'_def)
    qed
    show "distinct (slot_buckets (Some (b, fds[k := (x, ds @ [a])])))" by simp
    from k at have "map fst (fds[k := (x, ds @ [a])]) = map fst fds"
      by (simp add: map_update) (metis fst_conv list_update_id map_update)
    with distf show "distinct (slot_fills (Some (b, fds[k := (x, ds @ [a])])))" by simp
    have "distinct (concat (map snd (fds[k := (x, ds @ [a])])))"
    proof (rule distinct_concat_update [OF distd k])
      from distinct_concat_nth [OF distd k] at fresh ds_sub
      show "distinct (snd (x, ds @ [a]))" by auto
      fix y assume "y \<in> set (snd (x, ds @ [a]))"
      with at fresh show "y \<in> set (snd (fds ! k)) \<or> y \<notin> set (concat (map snd fds))"
        by auto
    qed
    then show "distinct (slot_dups (Some (b, fds[k := (x, ds @ [a])])))" by simp
    show "y \<in> set (slot_buckets (sh ! i)) \<or> next_addr m \<le> y \<and> y < next_addr m'"
      if "y \<in> set (slot_buckets (Some (b, fds[k := (x, ds @ [a])])))" for y
      using that slot by simp
    show "y \<in> set (slot_fills (sh ! i)) \<or> next_addr m \<le> y \<and> y < next_addr m'"
      if "y \<in> set (slot_fills (Some (b, fds[k := (x, ds @ [a])])))" for y
      using that slot \<open>map fst (fds[k := (x, ds @ [a])]) = map fst fds\<close> by simp
    show "y \<in> set (slot_dups (sh ! i)) \<or> next_addr m \<le> y \<and> y < next_addr m'"
      if "y \<in> set (slot_dups (Some (b, fds[k := (x, ds @ [a])])))" for y
    proof -
      from that have "y \<in> set (concat (map snd (fds[k := (x, ds @ [a])])))" by simp
      with set_concat_update [OF k, of snd "(x, ds @ [a])"]
      have "y \<in> set (concat (map snd fds)) \<or> y \<in> set ds \<or> y = a" by auto
      with ds_sub slot show ?thesis by (auto simp: a_def m'_def m1_def)
    qed
    show "next_addr m \<le> next_addr m'" by (simp add: m'_def m1_def)
    from pb i represents_length [OF rep] show "buckets t = (buckets t)[i := Some b]"
      by (metis list_update_id)
    show "number_of_total_buckets t = number_of_total_buckets t" ..
  qed
  have "fill_obj m' = fill_obj m"
    using fx by (auto simp: fill_obj_def m'_def m1_def f'_def fun_eq_iff)
  moreover have "dup_obj m' y = ((dup_obj m)(a \<mapsto> obj)) y" for y
  proof (cases "y = a")
    case True
    then show ?thesis by (simp add: dup_obj_def m'_def dm'_a D_def)
  next
    case ya: False
    show ?thesis
    proof (cases "ds = [] \<or> y \<noteq> last ds")
      case True
      with dm'_other [of y] ya show ?thesis by (simp add: dup_obj_def m'_def)
    next
      case False
      then have ne: "ds \<noteq> []" and ye: "y = last ds" by auto
      from last_alloc [OF ne] obtain d where "dup_mem m (last ds) = Some d" by blast
      with dm'_last [OF ne] ye ya show ?thesis by (simp add: dup_obj_def m'_def)
    qed
  qed
  then have "dup_obj m' = (dup_obj m)(a \<mapsto> obj)" by (rule ext)
  moreover have "live_bytes m' = live_bytes m + sizeof_hash_table_duplicate_t"
    "next_addr m' = Suc (next_addr m)" by (simp_all add: m'_def m1_def)
  ultimately show ?thesis using run rep' unfolding a_def by blast
qed

subsection \<open>The collision loop\<close>

lemma locate_bounds:
  "locate cmp obj rs = (k, d) \<Longrightarrow> k \<le> length rs \<and> (d \<longrightarrow> k < length rs)"
  by (induction rs arbitrary: k d) (auto split: if_splits prod.splits)

lemma insert_loop_chain:
  assumes "chain (fill_next m) cur fs None"
  shows "insert_loop t m obj cur prev =
    (case locate (compare_function t) obj (map (\<lambda>f. the (fill_obj m f)) fs) of
       (k, True) \<Rightarrow>
         add_duplicate t m obj (fs ! k) (the (fill_mem m (fs ! k)))
           (if k = 0 then prev else Some (fs ! (k - 1)))
     | (k, False) \<Rightarrow>
         Some (Inr (LoopDone False (if k < length fs then Some (fs ! k) else None)
           (if k = 0 then prev else Some (fs ! (k - 1))) t m)))"
  using assms
proof (induction fs arbitrary: cur prev)
  case Nil
  then show ?case by (simp add: insert_loop.simps)
next
  case (Cons a fs)
  from Cons.prems have cur: "cur = Some a" by simp
  from Cons.prems obtain p' where p': "fill_next m a = Some p'" "chain (fill_next m) p' fs None"
    by (auto split: option.splits)
  from p'(1) obtain f where f: "fill_mem m a = Some f" and "p' = next_fill f"
    by (auto simp: fill_next_def)
  with p'(2) have rest: "chain (fill_next m) (next_fill f) fs None" by simp
  have obj_a: "the (fill_obj m a) = fill_object f" using f by (simp add: fill_obj_def)
  show ?case
  proof (cases "compare_function t (fill_object f) obj = 0")
    case True
    with cur f obj_a show ?thesis by (subst insert_loop.simps) simp
  next
    case ne: False
    show ?thesis
    proof (cases "compare_function t (fill_object f) obj < 0")
      case True
      obtain k d where loc: "locate (compare_function t) obj (map (\<lambda>f. the (fill_obj m f)) fs) = (k, d)"
        by (cases "locate (compare_function t) obj (map (\<lambda>f. the (fill_obj m f)) fs)")
      have "insert_loop t m obj cur prev = insert_loop t m obj (next_fill f) (Some a)"
        using cur f ne True by (subst insert_loop.simps) simp
      also note Cons.IH [OF rest, of "Some a"]
      finally show ?thesis
        using ne True obj_a loc by (cases d; cases k) simp_all
    next
      case False
      with ne cur f obj_a show ?thesis by (subst insert_loop.simps) simp
    qed
  qed
qed

subsection \<open>The specification's walk and the stopping position\<close>

lemma spec_chain_insert_locate:
  "spec_chain_insert cmp obj cs =
     (case locate cmp obj (map fst cs) of
        (k, True) \<Rightarrow> (cs[k := (fst (cs ! k), snd (cs ! k) @ [obj])], Duplicate)
      | (k, False) \<Rightarrow> (take k cs @ (obj, []) # drop k cs, Collision))"
proof (induction cs)
  case Nil
  then show ?case by simp
next
  case (Cons c cs)
  obtain r ds where c: "c = (r, ds)" by (cases c)
  obtain k d where loc: "locate cmp obj (map fst cs) = (k, d)"
    by (cases "locate cmp obj (map fst cs)")
  with Cons c show ?case by (cases d) (simp_all split: prod.splits)
qed

subsection \<open>Contents of a shape\<close>

lemma slot_contents_frame:
  assumes "\<And>x. x \<in> set (slot_fills s) \<Longrightarrow> fo' x = fo x"
    "\<And>x. x \<in> set (slot_dups s) \<Longrightarrow> dob' x = dob x"
  shows "slot_contents fo' dob' s = slot_contents fo dob s"
proof (cases s)
  case None
  then show ?thesis by simp
next
  case (Some bf)
  obtain b fds where bf: "bf = (b, fds)" by (cases bf)
  have "(case fd of (f, ds) \<Rightarrow> (the (fo' f), map (\<lambda>d. the (dob' d)) ds)) =
        (case fd of (f, ds) \<Rightarrow> (the (fo f), map (\<lambda>d. the (dob d)) ds))"
    if "fd \<in> set fds" for fd
  proof -
    obtain f ds where fd: "fd = (f, ds)" by (cases fd)
    from that fd have "fo' f = fo f" using assms(1) Some bf by force
    moreover from that fd have "dob' d = dob d" if "d \<in> set ds" for d
      using assms(2) Some bf \<open>d \<in> set ds\<close> by force
    ultimately show ?thesis using fd by simp
  qed
  with Some bf show ?thesis by simp
qed

lemma contents_update:
  assumes rep: "represents t m sh" and i: "i < length sh"
    and fo: "\<And>x. x < next_addr m \<Longrightarrow> fill_obj m' x = fill_obj m x"
    and dob: "\<And>x. x < next_addr m \<Longrightarrow> dup_obj m' x = dup_obj m x"
  shows "contents m' (sh[i := s']) =
         (contents m sh)[i := slot_contents (fill_obj m') (dup_obj m') s']"
proof -
  have "slot_contents (fill_obj m') (dup_obj m') (sh ! j) =
        slot_contents (fill_obj m) (dup_obj m) (sh ! j)" if "j < length sh" for j
    using represents_below(2,3) [OF rep that] fo dob by (intro slot_contents_frame) auto
  then have eq: "map (slot_contents (fill_obj m') (dup_obj m')) sh =
             map (slot_contents (fill_obj m) (dup_obj m)) sh"
    by (auto simp: list_eq_iff_nth_eq)
  show ?thesis
    unfolding contents_def map_update eq ..
qed

lemma contents_nth:
  "i < length sh \<Longrightarrow> contents m sh ! i = slot_contents (fill_obj m) (dup_obj m) (sh ! i)"
  by (simp add: contents_def)

lemma contents_frame:
  assumes rep: "represents t m sh"
    and fo: "\<And>x. x < next_addr m \<Longrightarrow> fill_obj m' x = fill_obj m x"
    and dob: "\<And>x. x < next_addr m \<Longrightarrow> dup_obj m' x = dup_obj m x"
  shows "contents m' sh = contents m sh"
proof -
  have "slot_contents (fill_obj m') (dup_obj m') (sh ! j) =
        slot_contents (fill_obj m) (dup_obj m) (sh ! j)" if "j < length sh" for j
    using represents_below(2,3) [OF rep that] fo dob by (intro slot_contents_frame) auto
  then show ?thesis
    by (auto simp: contents_def list_eq_iff_nth_eq)
qed

subsection \<open>Insertion into a represented table\<close>

lemma length_concat_update_plus:
  assumes "i < length xs" "length (g y) = length (g (xs ! i)) + n"
  shows "length (concat (map g (xs[i := y]))) = length (concat (map g xs)) + n"
  using length_concat_update [OF assms(1), of g y] assms(2) by simp

lemma represents_table:
  assumes "represents t m sh" "buckets t' = buckets t"
    "number_of_total_buckets t' = number_of_total_buckets t"
  shows "represents t' m sh"
  using assms by (intro represents_frame [OF assms(1)]) simp_all

lemma Insert_empty_slot:
  assumes rep: "represents t m sh"
    and h: "unat (hash_function t pattern (number_of_total_buckets t)) = i"
    and i: "i < length sh" and slot: "sh ! i = None"
  shows "(\<exists>m'. Hash_Table_Insert t m obj pattern = Some (Inr (0, t, m')) \<and> nodes_kept m m' \<and>
            live_bytes m' = live_bytes m \<and> \<not> allocations_succeed m) \<or>
         (\<exists>t' m'. Hash_Table_Insert t m obj pattern = Some (Inr (1, t', m')) \<and>
            inserted t m sh obj i t' m')"
proof -
  define a where "a = next_addr m"
  from represents_slot [OF rep i] slot have pn: "buckets t ! i = None" by simp
  from i represents_length [OF rep] have il: "i < length (buckets t)" by simp
  show ?thesis
  proof (cases rule: calloc_cases [of 1 sizeof_hash_table_bucket_t m])
    case fail
    then have "Hash_Table_Insert t m obj pattern =
      Some (Inr (0, t, m\<lparr>calloc_calls := Suc (calloc_calls m)\<rparr>))"
      using h il pn by (simp add: Hash_Table_Insert_def)
    moreover from fail(2) have "\<not> allocations_succeed m"
      by (auto simp: allocations_succeed_def)
    ultimately show ?thesis by (auto simp: nodes_kept_def)
  next
    case ok
    define m1 where "m1 = m\<lparr>next_addr := Suc (next_addr m),
      live_bytes := live_bytes m + 1 * sizeof_hash_table_bucket_t,
      calloc_calls := Suc (calloc_calls m)\<rparr>"
    from ok(1) have c1: "calloc (Suc 0) sizeof_hash_table_bucket_t m = (Some a, m1)"
      by (simp add: m1_def a_def)
    show ?thesis
    proof (cases rule: calloc_cases [of 1 sizeof_hash_table_fill_t m1])
      case fail
      then have "Hash_Table_Insert t m obj pattern =
        Some (Inr (0, t, free sizeof_hash_table_bucket_t (m1\<lparr>calloc_calls := Suc (calloc_calls m1)\<rparr>)))"
        using h il pn c1 by (simp add: Hash_Table_Insert_def)
      moreover from fail(2) have "\<not> allocations_succeed m"
        by (auto simp: allocations_succeed_def m1_def)
      ultimately show ?thesis by (auto simp: nodes_kept_def free_def m1_def)
    next
      case ok
      define N where "N = \<lparr>fill_object = obj, next_fill = None, first_duplicate = None,
        last_duplicate = None\<rparr>"
      define B where "B = \<lparr>first_fill = Some (Suc a), last_fill = Some (Suc a)\<rparr>"
      define m2 where "m2 = m1\<lparr>next_addr := Suc (next_addr m1),
        live_bytes := live_bytes m1 + 1 * sizeof_hash_table_fill_t,
        calloc_calls := Suc (calloc_calls m1)\<rparr>"
      define m' where "m' = m2\<lparr>fill_mem := (fill_mem m2)(Suc a \<mapsto> N),
        bucket_mem := (bucket_mem m2)(a \<mapsto> B)\<rparr>"
      define t' where "t' = t\<lparr>buckets := (buckets t)[i := Some a],
        number_of_buckets_filled := number_of_buckets_filled t + 1\<rparr>"
      from ok(1) have c2: "calloc (Suc 0) sizeof_hash_table_fill_t m1 = (Some (Suc a), m2)"
        by (simp add: m2_def m1_def a_def)
      have run: "Hash_Table_Insert t m obj pattern = Some (Inr (1, t', m'))"
        using h il pn c1 c2 by (simp add: Hash_Table_Insert_def t'_def m'_def N_def B_def)
      let ?sh' = "sh[i := Some (a, [(Suc a, [])])]"
      have shape: "insert_shape t m obj i sh = ?sh'"
        using slot by (simp add: insert_shape_def a_def)
      have rep': "represents t' m' ?sh'"
      proof (rule represents_update [OF rep i])
        show "slot_ok (bucket_mem m') (fill_next m') (fill_dup_ptrs m') (dup_next m')
                (Some a) (Some (a, [(Suc a, [])]))"
          by (simp add: m'_def B_def N_def fill_next_def fill_dup_ptrs_def)
        show "bucket_mem m' x = bucket_mem m x" if "x < next_addr m" for x
          using that by (simp add: m'_def m2_def m1_def a_def)
        show "fill_mem m' x = fill_mem m x" if "x < next_addr m" for x
          using that by (simp add: m'_def m2_def m1_def a_def)
        show "dup_mem m' x = dup_mem m x" for x
          by (simp add: m'_def m2_def m1_def)
        show "next_addr m \<le> next_addr m'" by (simp add: m'_def m2_def m1_def)
        show "buckets t' = (buckets t)[i := Some a]" by (simp add: t'_def)
        show "number_of_total_buckets t' = number_of_total_buckets t" by (simp add: t'_def)
      qed (auto simp: a_def m'_def m2_def m1_def)
      have cont: "contents m' ?sh' = (contents m sh)[i := Some [(obj, [])]]"
      proof -
        have "contents m' ?sh' =
          (contents m sh)[i := slot_contents (fill_obj m') (dup_obj m') (Some (a, [(Suc a, [])]))]"
        proof (rule contents_update [OF rep i])
          show "fill_obj m' x = fill_obj m x" if "x < next_addr m" for x
            using that by (simp add: fill_obj_def m'_def m2_def m1_def a_def)
          show "dup_obj m' x = dup_obj m x" for x
            by (simp add: dup_obj_def m'_def m2_def m1_def)
        qed
        then show ?thesis by (simp add: fill_obj_def m'_def N_def)
      qed
      have old: "contents m sh ! i = None" using i slot by (simp add: contents_nth)
      have "inserted t m sh obj i t' m'"
        unfolding inserted_def shape old
        using rep' cont i slot ok(3)
        by (simp add: t'_def same_strategies_def length_concat_update_plus m'_def m2_def m1_def)
      with run show ?thesis by blast
    qed
  qed
qed

lemma slot_contents_new_dup:
  assumes k: "k < length fds" and at: "fds ! k = (x, ds)"
    and fo: "\<And>y. y \<in> set (map fst fds) \<Longrightarrow> fo' y = fo y"
    and dob: "\<And>d. d \<in> set (concat (map snd fds)) \<Longrightarrow> dob' d = dob d"
    and new: "dob' a = Some obj"
    and cs: "slot_contents fo dob (Some (b, fds)) = Some cs"
  shows "slot_contents fo' dob' (Some (b, fds[k := (x, ds @ [a])])) =
         Some (cs[k := (fst (cs ! k), snd (cs ! k) @ [obj])])"
proof -
  let ?F = "\<lambda>(f, ds). (the (fo f), map (\<lambda>d. the (dob d)) ds)"
  let ?F' = "\<lambda>(f, ds). (the (fo' f), map (\<lambda>d. the (dob' d)) ds)"
  from cs have cs_def: "cs = map ?F fds" by simp
  have "slot_contents fo' dob' (Some (b, fds)) = slot_contents fo dob (Some (b, fds))"
    using fo dob by (intro slot_contents_frame) simp_all
  then have same: "map ?F' fds = map ?F fds" by simp
  from k at have mem: "(x, ds) \<in> set fds" by (metis nth_mem)
  then have "fo' x = fo x" by (intro fo) force
  moreover have "map (\<lambda>d. the (dob' d)) ds = map (\<lambda>d. the (dob d)) ds"
    using mem by (intro map_cong refl arg_cong [where f = the] dob) force
  ultimately have "?F' (x, ds @ [a]) = (fst (cs ! k), snd (cs ! k) @ [obj])"
    using new k at by (simp add: cs_def)
  then have "map ?F' (fds[k := (x, ds @ [a])]) = cs[k := (fst (cs ! k), snd (cs ! k) @ [obj])]"
    unfolding map_update same cs_def by simp
  then show ?thesis by simp
qed

lemma slot_contents_new_fill:
  assumes fo: "\<And>y. y \<in> set (map fst fds) \<Longrightarrow> fo' y = fo y"
    and dob: "\<And>d. d \<in> set (concat (map snd fds)) \<Longrightarrow> dob' d = dob d"
    and new: "fo' a = Some obj"
    and cs: "slot_contents fo dob (Some (b, fds)) = Some cs"
  shows "slot_contents fo' dob' (Some (b, take k fds @ (a, []) # drop k fds)) =
         Some (take k cs @ (obj, []) # drop k cs)"
proof -
  let ?F = "\<lambda>(f, ds). (the (fo f), map (\<lambda>d. the (dob d)) ds)"
  let ?F' = "\<lambda>(f, ds). (the (fo' f), map (\<lambda>d. the (dob' d)) ds)"
  from cs have cs_def: "cs = map ?F fds" by simp
  have "slot_contents fo' dob' (Some (b, fds)) = slot_contents fo dob (Some (b, fds))"
    using fo dob by (intro slot_contents_frame) simp_all
  then have same: "map ?F' fds = map ?F fds" by simp
  have "map ?F' (take k fds @ (a, []) # drop k fds) =
        take k (map ?F' fds) @ (obj, []) # drop k (map ?F' fds)"
    using new by (simp add: take_map drop_map)
  then show ?thesis unfolding same cs_def by simp
qed

lemma reps_contents:
  "slot_contents (fill_obj m) dob (Some (b, fds)) = Some cs \<Longrightarrow> map fst cs = reps m fds"
  by (auto simp: reps_def split: prod.splits)

lemma length_update_snd:
  assumes "k < length fds" "fds ! k = (x, ds)"
  shows "length (concat (map snd (fds[k := (x, ds @ [a])]))) = Suc (length (concat (map snd fds)))"
    "map fst (fds[k := (x, ds @ [a])]) = map fst fds"
proof -
  from length_concat_update [OF assms(1), of snd "(x, ds @ [a])"] assms(2)
  show "length (concat (map snd (fds[k := (x, ds @ [a])]))) = Suc (length (concat (map snd fds)))"
    by simp
  from assms show "map fst (fds[k := (x, ds @ [a])]) = map fst fds"
    by (simp add: map_update) (metis fst_conv list_update_id map_update)
qed

lemma Insert_filled_slot:
  assumes rep: "represents t m sh"
    and h: "unat (hash_function t pattern (number_of_total_buckets t)) = i"
    and i: "i < length sh" and slot: "sh ! i = Some (b, fds)"
  shows "(\<exists>m'. Hash_Table_Insert t m obj pattern = Some (Inr (0, t, m')) \<and> nodes_kept m m' \<and>
            live_bytes m' = live_bytes m \<and> \<not> allocations_succeed m) \<or>
         (\<exists>t' m'. Hash_Table_Insert t m obj pattern = Some (Inr (1, t', m')) \<and>
            inserted t m sh obj i t' m')"
proof -
  define a where "a = next_addr m"
  let ?cmp = "compare_function t"
  let ?V = "slot_ok (bucket_mem m) (fill_next m) (fill_dup_ptrs m) (dup_next m)"
  from represents_slot [OF rep i] slot have sok: "?V (buckets t ! i) (Some (b, fds))" by simp
  then obtain bk :: hash_table_bucket_t where bk: "bucket_mem m b = Some bk"
    and pb: "buckets t ! i = Some b"
    and ch: "chain (fill_next m) (first_fill bk) (map fst fds) None"
    by (cases "bucket_mem m b") auto
  from i represents_length [OF rep] have il: "i < length (buckets t)" by simp
  obtain cs where cs: "slot_contents (fill_obj m) (dup_obj m) (Some (b, fds)) = Some cs" by simp
  have old: "contents m sh ! i = Some cs" using i slot cs by (simp add: contents_nth)
  have rs: "map (\<lambda>f. the (fill_obj m f)) (map fst fds) = reps m fds"
    by (simp add: reps_def)
  obtain k d where loc: "locate ?cmp obj (reps m fds) = (k, d)"
    by (cases "locate ?cmp obj (reps m fds)")
  from locate_bounds [OF loc] have kb: "k \<le> length fds" "d \<Longrightarrow> k < length fds"
    by (simp_all add: reps_def)
  note loop = insert_loop_chain [OF ch, of t obj None, unfolded rs loc]
  have unfold: "Hash_Table_Insert t m obj pattern =
    (case insert_loop t m obj (first_fill bk) None of
       None \<Rightarrow> None
     | Some (Inl e) \<Rightarrow> Some (Inl e)
     | Some (Inr (Return0 m1)) \<Rightarrow> Some (Inr (0, t, m1))
     | Some (Inr (LoopDone objectPlaced current_bucket_fill prev_bucket_fill table1 m1)) \<Rightarrow>
         if \<not> objectPlaced
         then place_fill table1 m1 obj b current_bucket_fill prev_bucket_fill
         else Some (Inr (1, table1, m1)))"
    using h il pb bk by (simp add: Hash_Table_Insert_def)
  have slot_f: "y < next_addr m" if "y \<in> set (map fst fds)" for y
    using represents_below(2) [OF rep i, of y] slot that by simp
  have slot_d: "y < next_addr m" if "y \<in> set (concat (map snd fds))" for y
    using represents_below(3) [OF rep i, of y] slot that by simp
  show ?thesis
  proof (cases d)
    case True
    with kb have k: "k < length fds" by simp
    obtain x ds where at: "fds ! k = (x, ds)" by (cases "fds ! k")
    from slot_fill_allocated [OF sok k] at obtain f where fx: "fill_mem m x = Some f" by auto
    let ?prev = "if k = 0 then None else Some (fst (fds ! (k - 1)))"
    have loop': "insert_loop t m obj (first_fill bk) None = add_duplicate t m obj x f ?prev"
      using loop True k at fx by (auto simp: nth_map)
    have shape: "insert_shape t m obj i sh = sh[i := Some (b, fds[k := (x, ds @ [a])])]"
      using slot loc True at by (simp add: insert_shape_def a_def)
    have spec: "spec_insert ?cmp obj (contents m sh ! i) =
      (Some (cs[k := (fst (cs ! k), snd (cs ! k) @ [obj])]), Duplicate)"
      unfolding old using loc True reps_contents [OF cs]
      by (simp add: spec_chain_insert_locate)
    show ?thesis
    proof (cases rule: calloc_cases [of 1 sizeof_hash_table_duplicate_t m])
      case fail
      then have "Hash_Table_Insert t m obj pattern =
        Some (Inr (0, t, m\<lparr>calloc_calls := Suc (calloc_calls m)\<rparr>))"
        unfolding unfold loop' by (simp add: add_duplicate_def)
      moreover from fail(2) have "\<not> allocations_succeed m"
        by (auto simp: allocations_succeed_def sizeof_hash_table_duplicate_t_def
            sizeof_hash_table_bucket_t_def)
      ultimately show ?thesis by (auto simp: nodes_kept_def)
    next
      case ok
      from ok(2,3) have room: "live_bytes m + sizeof_hash_table_duplicate_t < 2 ^ 64" by simp
      define t' where "t' = t\<lparr>number_of_duplicates := number_of_duplicates t + 1\<rparr>"
      from add_duplicate_ok [OF rep i slot k at fx ok(2) room, of obj ?prev]
      obtain m' where run: "add_duplicate t m obj x f ?prev =
            Some (Inr (LoopDone True (Some x) ?prev t' m'))"
        and rep': "represents t m' (sh[i := Some (b, fds[k := (x, ds @ [a])])])"
        and fo: "fill_obj m' = fill_obj m" and dob: "dup_obj m' = (dup_obj m)(a \<mapsto> obj)"
        and lb: "live_bytes m' = live_bytes m + sizeof_hash_table_duplicate_t"
        and na: "next_addr m' = Suc (next_addr m)"
        unfolding a_def t'_def by blast
      have res: "Hash_Table_Insert t m obj pattern = Some (Inr (1, t', m'))"
        unfolding unfold loop' run by simp
      have fo_lt: "fill_obj m' y = fill_obj m y" for y by (simp add: fo)
      have dob_lt: "dup_obj m' y = dup_obj m y" if "y < next_addr m" for y
        using that by (simp add: dob a_def)
      have rep'': "represents t' m' (sh[i := Some (b, fds[k := (x, ds @ [a])])])"
        using rep' by (rule represents_table) (simp_all add: t'_def)
      have cont: "contents m' (sh[i := Some (b, fds[k := (x, ds @ [a])])]) =
        (contents m sh)[i := Some (cs[k := (fst (cs ! k), snd (cs ! k) @ [obj])])]"
      proof -
        have "slot_contents (fill_obj m') (dup_obj m') (Some (b, fds[k := (x, ds @ [a])])) =
          Some (cs[k := (fst (cs ! k), snd (cs ! k) @ [obj])])"
        proof (rule slot_contents_new_dup [OF k at _ _ _ cs])
          show "fill_obj m' y = fill_obj m y" for y by (simp add: fo)
          show "dup_obj m' y = dup_obj m y" if "y \<in> set (concat (map snd fds))" for y
            using slot_d [OF that] by (rule dob_lt)
          show "dup_obj m' a = Some obj" by (simp add: dob)
        qed
        moreover have "contents m' (sh[i := Some (b, fds[k := (x, ds @ [a])])]) =
          (contents m sh)[i := slot_contents (fill_obj m') (dup_obj m')
             (Some (b, fds[k := (x, ds @ [a])]))]"
          by (intro contents_update [OF rep i] fo_lt dob_lt)
        ultimately show ?thesis by simp
      qed
      let ?s' = "Some (b, fds[k := (x, ds @ [a])])"
      have nb: "length (concat (map slot_buckets (sh[i := ?s']))) =
          length (concat (map slot_buckets sh)) + 0"
        by (rule length_concat_update_plus [OF i]) (simp add: slot)
      have nf: "length (concat (map slot_fills (sh[i := ?s']))) =
          length (concat (map slot_fills sh)) + 0"
        by (rule length_concat_update_plus [OF i]) (simp add: slot)
      have nd: "length (concat (map slot_dups (sh[i := ?s']))) =
          length (concat (map slot_dups sh)) + 1"
        using length_update_snd(1) [OF k at, of a]
        by (intro length_concat_update_plus [OF i]) (simp add: slot)
      have "inserted t m sh obj i t' m'"
        unfolding inserted_def shape spec
        using rep'' cont lb nb nf nd room na
        by (simp add: t'_def same_strategies_def)
      with res show ?thesis by blast
    qed
  next
    case False
    let ?cur = "if k < length fds then Some (fst (fds ! k)) else None"
    let ?prev = "if k = 0 then None else Some (fst (fds ! (k - 1)))"
    have loop': "insert_loop t m obj (first_fill bk) None =
      Some (Inr (LoopDone False ?cur ?prev t m))"
    proof -
      from kb have "k - 1 < length fds \<or> k = 0" by auto
      then show ?thesis using loop False by (auto simp: nth_map)
    qed
    have shape: "insert_shape t m obj i sh = sh[i := Some (b, take k fds @ (a, []) # drop k fds)]"
      using slot loc False by (simp add: insert_shape_def a_def)
    have spec: "spec_insert ?cmp obj (contents m sh ! i) =
      (Some (take k cs @ (obj, []) # drop k cs), Collision)"
      unfolding old using loc False reps_contents [OF cs]
      by (simp add: spec_chain_insert_locate)
    show ?thesis
    proof (cases rule: calloc_cases [of 1 sizeof_hash_table_fill_t m])
      case fail
      then have "Hash_Table_Insert t m obj pattern =
        Some (Inr (0, t, m\<lparr>calloc_calls := Suc (calloc_calls m)\<rparr>))"
        unfolding unfold loop' by (simp add: place_fill_def)
      moreover from fail(2) have "\<not> allocations_succeed m"
        by (auto simp: allocations_succeed_def)
      ultimately show ?thesis by (auto simp: nodes_kept_def)
    next
      case ok
      from ok(2,3) have room: "live_bytes m + sizeof_hash_table_fill_t < 2 ^ 64" by simp
      define t' where "t' = t\<lparr>number_of_collisions := number_of_collisions t + 1\<rparr>"
      from place_fill_ok [OF rep i slot kb(1) ok(2) room, of obj]
      obtain m' where run: "place_fill t m obj b ?cur ?prev = Some (Inr (1, t', m'))"
        and rep': "represents t m' (sh[i := Some (b, take k fds @ (a, []) # drop k fds)])"
        and fo: "fill_obj m' = (fill_obj m)(a \<mapsto> obj)" and dob: "dup_obj m' = dup_obj m"
        and lb: "live_bytes m' = live_bytes m + sizeof_hash_table_fill_t"
        and na: "next_addr m' = Suc (next_addr m)"
        unfolding a_def t'_def by blast
      have res: "Hash_Table_Insert t m obj pattern = Some (Inr (1, t', m'))"
        unfolding unfold loop' using run by simp
      have dob_lt: "dup_obj m' y = dup_obj m y" for y by (simp add: dob)
      have fo_lt: "fill_obj m' y = fill_obj m y" if "y < next_addr m" for y
        using that by (simp add: fo a_def)
      have rep'': "represents t' m' (sh[i := Some (b, take k fds @ (a, []) # drop k fds)])"
        using rep' by (rule represents_table) (simp_all add: t'_def)
      have cont: "contents m' (sh[i := Some (b, take k fds @ (a, []) # drop k fds)]) =
        (contents m sh)[i := Some (take k cs @ (obj, []) # drop k cs)]"
      proof -
        have "slot_contents (fill_obj m') (dup_obj m')
            (Some (b, take k fds @ (a, []) # drop k fds)) =
          Some (take k cs @ (obj, []) # drop k cs)"
        proof (rule slot_contents_new_fill [OF _ _ _ cs])
          show "fill_obj m' y = fill_obj m y" if "y \<in> set (map fst fds)" for y
            using slot_f [OF that] by (rule fo_lt)
          show "dup_obj m' y = dup_obj m y" for y by (simp add: dob)
          show "fill_obj m' a = Some obj" by (simp add: fo)
        qed
        moreover have "contents m' (sh[i := Some (b, take k fds @ (a, []) # drop k fds)]) =
          (contents m sh)[i := slot_contents (fill_obj m') (dup_obj m')
             (Some (b, take k fds @ (a, []) # drop k fds))]"
          by (intro contents_update [OF rep i] fo_lt dob_lt)
        ultimately show ?thesis by simp
      qed
      let ?s' = "Some (b, take k fds @ (a, []) # drop k fds)"
      have nb: "length (concat (map slot_buckets (sh[i := ?s']))) =
          length (concat (map slot_buckets sh)) + 0"
        by (rule length_concat_update_plus [OF i]) (simp add: slot)
      have nf: "length (concat (map slot_fills (sh[i := ?s']))) =
          length (concat (map slot_fills sh)) + 1"
        using kb(1) by (intro length_concat_update_plus [OF i]) (simp add: slot)
      have nd: "length (concat (map slot_dups (sh[i := ?s']))) =
          length (concat (map slot_dups sh)) + 0"
        by (rule length_concat_update_plus [OF i]) (simp add: slot concat_map_take_drop)
      have "inserted t m sh obj i t' m'"
        unfolding inserted_def shape spec
        using rep'' cont lb nb nf nd room na
        by (simp add: t'_def same_strategies_def)
      with res show ?thesis by blast
    qed
  qed
qed

lemma Insert_represented:
  assumes rep: "represents t m sh"
    and h: "unat (hash_function t pattern (number_of_total_buckets t)) = i"
    and i: "i < length sh"
  shows "(\<exists>m'. Hash_Table_Insert t m obj pattern = Some (Inr (0, t, m')) \<and> nodes_kept m m' \<and>
            live_bytes m' = live_bytes m \<and> \<not> allocations_succeed m) \<or>
         (\<exists>t' m'. Hash_Table_Insert t m obj pattern = Some (Inr (1, t', m')) \<and>
            inserted t m sh obj i t' m')"
proof (cases "sh ! i")
  case None
  from Insert_empty_slot [OF rep h i None] show ?thesis .
next
  case (Some bf)
  obtain b fds where "bf = (b, fds)" by (cases bf)
  with Some have "sh ! i = Some (b, fds)" by simp
  from Insert_filled_slot [OF rep h i this] show ?thesis .
qed

subsection \<open>A failing insertion changes nothing\<close>

lemma add_duplicate_exit:
  assumes "add_duplicate t m obj cur f prev = Some (Inr r)"
  shows "(case r of
            Return0 m1 \<Rightarrow> nodes_kept m m1 \<and> live_bytes m1 = live_bytes m
          | LoopDone placed c p t1 m1 \<Rightarrow> placed)"
  using assms
  by (cases rule: calloc_cases [of 1 sizeof_hash_table_duplicate_t m])
     (auto simp: add_duplicate_def Let_def nodes_kept_def split: option.splits)

lemma insert_loop_exit:
  assumes "insert_loop t m obj cur prev = Some y"
  shows "(case y of
            Inl e \<Rightarrow> True
          | Inr (Return0 m1) \<Rightarrow> nodes_kept m m1 \<and> live_bytes m1 = live_bytes m
          | Inr (LoopDone placed c p t1 m1) \<Rightarrow> placed \<or> t1 = t \<and> m1 = m)"
proof (rule insert_loop.raw_induct [where P = "\<lambda>t m obj cur prev y. case y of
            Inl e \<Rightarrow> True
          | Inr (Return0 m1) \<Rightarrow> nodes_kept m m1 \<and> live_bytes m1 = live_bytes m
          | Inr (LoopDone placed c p t1 m1) \<Rightarrow> placed \<or> t1 = t \<and> m1 = m", OF _ assms],
    goal_cases)
  case (1 loop t m obj cur prev y)
  show ?case
  proof (cases cur)
    case None
    with 1(2) show ?thesis by auto
  next
    case (Some c)
    show ?thesis
    proof (cases "fill_mem m c")
      case None
      with Some 1(2) show ?thesis by auto
    next
      case (Some f)
      show ?thesis
      proof (cases "compare_function t (fill_object f) obj = 0")
        case True
        with \<open>cur = Some c\<close> Some 1(2)
        have ad: "add_duplicate t m obj c f prev = Some y" by simp
        show ?thesis
        proof (cases y)
          case (Inl e)
          then show ?thesis by simp
        next
          case (Inr r)
          with add_duplicate_exit [of t m obj c f prev r] ad show ?thesis
            by (cases r) auto
        qed
      next
        case ne: False
        show ?thesis
        proof (cases "compare_function t (fill_object f) obj < 0")
          case True
          with ne \<open>cur = Some c\<close> Some 1(2)
          have "loop t m obj (next_fill f) (Some c) = Some y" by simp
          then show ?thesis by (rule 1(1))
        next
          case False
          with ne \<open>cur = Some c\<close> Some 1(2) show ?thesis by auto
        qed
      qed
    qed
  qed
qed

lemma place_fill_failure:
  assumes "place_fill t m obj b c p = Some (Inr (0, t', m'))"
  shows "t' = t \<and> nodes_kept m m' \<and> live_bytes m' = live_bytes m"
  using assms
  by (cases rule: calloc_cases [of 1 sizeof_hash_table_fill_t m])
     (auto simp: place_fill_def Let_def nodes_kept_def split: option.splits)

lemma Insert_failure_unchanged:
  assumes "Hash_Table_Insert t m obj pattern = Some (Inr (0, t', m'))"
  shows "t' = t \<and> nodes_kept m m' \<and> live_bytes m' = live_bytes m"
proof -
  let ?i = "unat (hash_function t pattern (number_of_total_buckets t))"
  from assms have il: "?i < length (buckets t)"
    by (auto simp: Hash_Table_Insert_def Let_def split: if_splits)
  show ?thesis
  proof (cases "buckets t ! ?i")
    case None
    show ?thesis
    proof (cases rule: calloc_cases [of 1 sizeof_hash_table_bucket_t m])
      case fail
      with assms il None show ?thesis
        by (auto simp: Hash_Table_Insert_def nodes_kept_def)
    next
      case ok
      let ?m1 = "m\<lparr>next_addr := Suc (next_addr m),
        live_bytes := live_bytes m + 1 * sizeof_hash_table_bucket_t,
        calloc_calls := Suc (calloc_calls m)\<rparr>"
      show ?thesis
      proof (cases rule: calloc_cases [of 1 sizeof_hash_table_fill_t ?m1])
        case fail
        with assms il None ok(1) show ?thesis
          by (auto simp: Hash_Table_Insert_def nodes_kept_def free_def)
      next
        case ok2: ok
        with assms il None ok(1) show ?thesis
          by (auto simp: Hash_Table_Insert_def)
      qed
    qed
  next
    case (Some b)
    show ?thesis
    proof (cases "bucket_mem m b")
      case None
      with assms il Some show ?thesis by (auto simp: Hash_Table_Insert_def)
    next
      case bk: (Some bk)
      from assms il Some bk obtain y where loop: "insert_loop t m obj (first_fill bk) None = Some y"
        by (cases "insert_loop t m obj (first_fill bk) None") (auto simp: Hash_Table_Insert_def)
      show ?thesis
      proof (cases y)
        case (Inl e)
        with assms il Some bk loop show ?thesis by (auto simp: Hash_Table_Insert_def)
      next
        case (Inr r)
        show ?thesis
        proof (cases r)
          case (Return0 m1)
          with insert_loop_exit [OF loop] Inr assms il Some bk loop show ?thesis
            by (auto simp: Hash_Table_Insert_def)
        next
          case (LoopDone placed c p t1 m1)
          show ?thesis
          proof (cases placed)
            case True
            with LoopDone Inr assms il Some bk loop show ?thesis
              by (auto simp: Hash_Table_Insert_def)
          next
            case False
            with insert_loop_exit [OF loop] Inr LoopDone have "t1 = t" "m1 = m" by auto
            with False LoopDone Inr assms il Some bk loop
            have "place_fill t m obj b c p = Some (Inr (0, t', m'))"
              by (auto simp: Hash_Table_Insert_def)
            then show ?thesis by (rule place_fill_failure)
          qed
        qed
      qed
    qed
  qed
qed

subsection \<open>The lookup loops\<close>

lemma store_all_length [simp]: "length (store_all arr i xs) = length arr"
  by (induction xs arbitrary: arr i) simp_all

lemma store_all_eq:
  "i + length xs \<le> length arr \<Longrightarrow>
   store_all arr i xs = take i arr @ map Some xs @ drop (i + length xs) arr"
proof (induction xs arbitrary: arr i)
  case Nil
  then show ?case by simp
next
  case (Cons x xs)
  then have i: "i < length arr" by simp
  from Cons.prems have "Suc i + length xs \<le> length (arr[i := Some x])" by simp
  from Cons.IH [OF this]
  have "store_all (arr[i := Some x]) (Suc i) xs =
    take (Suc i) (arr[i := Some x]) @ map Some xs @ drop (Suc i + length xs) (arr[i := Some x])" .
  moreover have "take (Suc i) (arr[i := Some x]) = take i arr @ [Some x]"
    using i by (simp add: take_Suc_conv_app_nth)
  moreover have "drop (Suc i + length xs) (arr[i := Some x]) = drop (Suc i + length xs) arr"
    by simp
  ultimately show ?case by simp
qed

lemma word_succ_unat:
  fixes c n :: ulong
  assumes "c < n"
  shows "unat (c + 1) = Suc (unat c)"
proof -
  from assms have "unat c < unat n" by (simp add: word_less_nat_alt)
  moreover have "unat n < 2 ^ 64" using unsigned_less [of n] by simp
  ultimately have "unat c + unat (1 :: ulong) < 2 ^ LENGTH(64)" by simp
  then have "unat (c + 1) = unat c + unat (1 :: ulong)" by (simp only: unat_add_lem)
  then show ?thesis by simp
qed

lemma collect_duplicates_chain:
  assumes "chain (dup_next m) p ds None" "length arr = unat n"
  shows "collect_duplicates m n p arr c =
    Some (Inr (store_all arr (unat c)
                 (take (unat n - unat c) (map (\<lambda>d. the (dup_obj m d)) ds)),
               c + of_nat (min (length ds) (unat n - unat c))))"
  using assms
proof (induction ds arbitrary: p arr c)
  case Nil
  then show ?case by (simp add: collect_duplicates.simps)
next
  case (Cons d ds)
  from Cons.prems have p: "p = Some d" by simp
  from Cons.prems obtain p' where p': "dup_next m d = Some p'" "chain (dup_next m) p' ds None"
    by (auto split: option.splits)
  from p'(1) obtain dn where dn: "dup_mem m d = Some dn" and "p' = next_duplicate dn"
    by (auto simp: dup_next_def)
  with p'(2) have rest: "chain (dup_next m) (next_duplicate dn) ds None" by simp
  have obj: "the (dup_obj m d) = dup_object dn" using dn by (simp add: dup_obj_def)
  show ?case
  proof (cases "c < n")
    case False
    then have "unat n - unat c = 0" by (simp add: word_less_nat_alt)
    with False p show ?thesis by (subst collect_duplicates.simps) simp
  next
    case True
    then have lt: "unat c < unat n" by (simp add: word_less_nat_alt)
    note suc = word_succ_unat [OF True]
    have len: "length (arr[unat c := Some (dup_object dn)]) = unat n"
      using Cons.prems(2) by simp
    have "collect_duplicates m n p arr c =
      collect_duplicates m n (next_duplicate dn) (arr[unat c := Some (dup_object dn)]) (c + 1)"
      using True p dn lt Cons.prems(2) by (subst collect_duplicates.simps) simp
    also note Cons.IH [OF rest len, of "c + 1"]
    finally have "collect_duplicates m n p arr c =
      Some (Inr (store_all (arr[unat c := Some (dup_object dn)]) (Suc (unat c))
                   (take (unat n - Suc (unat c)) (map (\<lambda>d. the (dup_obj m d)) ds)),
                 c + 1 + of_nat (min (length ds) (unat n - Suc (unat c)))))"
      by (simp add: suc)
    moreover from lt have split: "unat n - unat c = Suc (unat n - Suc (unat c))" by simp
    have "take (unat n - unat c) (map (\<lambda>d. the (dup_obj m d)) (d # ds)) =
      dup_object dn # take (unat n - Suc (unat c)) (map (\<lambda>d. the (dup_obj m d)) ds)"
      unfolding split using obj by simp
    moreover have "min (length (d # ds)) (unat n - unat c) =
      Suc (min (length ds) (unat n - Suc (unat c)))"
      unfolding split by simp
    ultimately show ?thesis by simp
  qed
qed

lemma match_loop_chain:
  assumes "chain (fill_next m) cur fs None"
  shows "match_loop t m pattern c n cur =
    (case find (\<lambda>f. search_function t pattern (the (fill_obj m f)) = 1) fs of
       None \<Rightarrow> Some (Inr (None, c, m))
     | Some f \<Rightarrow> collect_match m n c (the (fill_mem m f)))"
  using assms
proof (induction fs arbitrary: cur)
  case Nil
  then show ?case by (simp add: match_loop.simps)
next
  case (Cons a fs)
  from Cons.prems have cur: "cur = Some a" by simp
  from Cons.prems obtain p' where p': "fill_next m a = Some p'" "chain (fill_next m) p' fs None"
    by (auto split: option.splits)
  from p'(1) obtain f where f: "fill_mem m a = Some f" and "p' = next_fill f"
    by (auto simp: fill_next_def)
  with p'(2) have rest: "chain (fill_next m) (next_fill f) fs None" by simp
  have obj: "the (fill_obj m a) = fill_object f" using f by (simp add: fill_obj_def)
  show ?case
  proof (cases "search_function t pattern (fill_object f) = 1")
    case True
    with cur f obj show ?thesis by (subst match_loop.simps) simp
  next
    case False
    have "match_loop t m pattern c n cur = match_loop t m pattern c n (next_fill f)"
      using cur f False by (subst match_loop.simps) simp
    also note Cons.IH [OF rest]
    finally show ?thesis using False obj by simp
  qed
qed

lemma find_map_option: "find P (map f xs) = map_option f (find (\<lambda>x. P (f x)) xs)"
  by (induction xs) simp_all

lemma collect_match_fail:
  assumes "\<not> (calloc_ok m (calloc_calls m) \<and> live_bytes m + unat n * sizeof_pointer < 2 ^ 64)"
  shows "collect_match m n c f = Some (Inr (None, c, m\<lparr>calloc_calls := Suc (calloc_calls m)\<rparr>))"
proof -
  from assms have "calloc (unat n) sizeof_pointer m =
    (None, m\<lparr>calloc_calls := Suc (calloc_calls m)\<rparr>)"
    by (cases rule: calloc_cases [of "unat n" sizeof_pointer m]) simp_all
  then show ?thesis by (simp add: collect_match_def)
qed

lemma collect_match_zero:
  assumes "calloc_ok m (calloc_calls m)" "live_bytes m < 2 ^ 64"
  shows "collect_match m 0 c f = Some (Inl RecordIndexOutOfBounds)"
  using assms by (simp add: collect_match_def calloc_def)

lemma result_array_store:
  assumes "0 < n"
  shows "store_all ((replicate n None)[0 := Some r]) (Suc 0) (take (n - Suc 0) xs) =
         result_array n (collected n (r, xs))"
proof -
  let ?xs = "take (n - Suc 0) xs"
  have len: "Suc 0 + length ?xs \<le> length ((replicate n None)[0 := Some r])"
    using assms by simp
  have hd: "take (Suc 0) ((replicate n (None :: 'a option))[0 := Some r]) = [Some r]"
    using assms by (cases n) simp_all
  have tl: "drop (Suc 0 + length ?xs) ((replicate n (None :: 'a option))[0 := Some r]) =
    replicate (n - Suc (length ?xs)) None"
    by (simp add: drop_update_cancel)
  have col: "collected n (r, xs) = r # ?xs"
    using assms by (cases n) (simp_all add: collected_def)
  show ?thesis
    unfolding store_all_eq [OF len] hd tl col by (simp add: result_array_def)
qed

lemma collect_match_found:
  fixes n :: ulong
  assumes ch: "chain (dup_next m) (first_duplicate f) ds None"
    and ok: "calloc_ok m (calloc_calls m)"
    and room: "live_bytes m + unat n * sizeof_pointer < 2 ^ 64"
    and n: "n \<noteq> 0"
  defines "xs \<equiv> collected (unat n) (fill_object f, map (\<lambda>d. the (dup_obj m d)) ds)"
  shows "collect_match m n 0 f =
    Some (Inr (Some (result_array (unat n) xs), of_nat (length xs),
      m\<lparr>next_addr := Suc (next_addr m), live_bytes := live_bytes m + unat n * sizeof_pointer,
        calloc_calls := Suc (calloc_calls m)\<rparr>))"
    and "length xs = min (unat n) (Suc (length ds))"
proof -
  let ?m1 = "m\<lparr>next_addr := Suc (next_addr m),
    live_bytes := live_bytes m + unat n * sizeof_pointer,
    calloc_calls := Suc (calloc_calls m)\<rparr>"
  let ?objs = "map (\<lambda>d. the (dup_obj m d)) ds"
  from n have pos: "0 < unat n" by (simp add: unat_gt_0)
  have ca: "calloc (unat n) sizeof_pointer m = (Some (next_addr m), ?m1)"
    using ok room by (rule calloc_success)
  have dn: "dup_next ?m1 = dup_next m" "dup_obj ?m1 = dup_obj m"
    by (simp_all add: dup_next_def dup_obj_def fun_eq_iff)
  from ch have ch1: "chain (dup_next ?m1) (first_duplicate f) ds None" by (simp only: dn)
  have len: "length ((replicate (unat n) None)[0 := Some (fill_object f)]) = unat n" by simp
  note loop = collect_duplicates_chain [OF ch1 len, of "0 + 1", unfolded dn]
  show lx: "length xs = min (unat n) (Suc (length ds))"
    by (simp add: xs_def collected_def)
  have cnt: "(1 :: ulong) + of_nat (min (length ds) (unat n - Suc 0)) = of_nat (length xs)"
  proof -
    from pos have "Suc (min (length ds) (unat n - Suc 0)) = min (unat n) (Suc (length ds))"
      by (cases "unat n") simp_all
    with lx have "length xs = Suc (min (length ds) (unat n - Suc 0))" by simp
    then show ?thesis by simp
  qed
  from pos have arr: "store_all ((replicate (unat n) None)[0 := Some (fill_object f)]) (Suc 0)
      (take (unat n - Suc 0) ?objs) = result_array (unat n) xs"
    unfolding xs_def by (rule result_array_store)
  show "collect_match m n 0 f = Some (Inr (Some (result_array (unat n) xs), of_nat (length xs), ?m1))"
    using pos loop arr cnt by (simp add: collect_match_def ca)
qed

subsection \<open>Lookup in a represented table\<close>

lemma Match_represented:
  assumes rep: "represents t m sh"
    and h: "unat (hash_function t pattern (number_of_total_buckets t)) = i"
    and i: "i < length sh"
  shows "Hash_Table_Match t m pattern c n =
    (case sh ! i of
       None \<Rightarrow> Some (Inr (None, 0, m))
     | Some (b, fds) \<Rightarrow>
         (case find (\<lambda>fd. search_function t pattern (the (fill_obj m (fst fd))) = 1) fds of
            None \<Rightarrow> Some (Inr (None, c, m))
          | Some (f, ds) \<Rightarrow> collect_match m n c (the (fill_mem m f))))"
proof (cases "sh ! i")
  case None
  with represents_slot [OF rep i] have "buckets t ! i = None" by simp
  with None h i represents_length [OF rep] show ?thesis
    by (simp add: Hash_Table_Match_def)
next
  case (Some bf)
  obtain b fds where bf: "bf = (b, fds)" by (cases bf)
  from represents_slot [OF rep i] Some bf
  obtain bk :: hash_table_bucket_t where bk: "bucket_mem m b = Some bk"
    and pb: "buckets t ! i = Some b"
    and ch: "chain (fill_next m) (first_fill bk) (map fst fds) None"
    by (cases "bucket_mem m b") auto
  have "Hash_Table_Match t m pattern c n = match_loop t m pattern c n (first_fill bk)"
    using h i represents_length [OF rep] pb bk by (simp add: Hash_Table_Match_def)
  also note match_loop_chain [OF ch]
  finally have run: "Hash_Table_Match t m pattern c n =
    (case find (\<lambda>f. search_function t pattern (the (fill_obj m f)) = 1) (map fst fds) of
       None \<Rightarrow> Some (Inr (None, c, m))
     | Some f \<Rightarrow> collect_match m n c (the (fill_mem m f)))" .
  show ?thesis
  proof (cases "find (\<lambda>fd. search_function t pattern (the (fill_obj m (fst fd))) = 1) fds")
    case None
    with run Some bf show ?thesis by (simp add: find_map_option)
  next
    case found: (Some fd)
    obtain f ds where "fd = (f, ds)" by (cases fd)
    with found run Some bf show ?thesis by (simp add: find_map_option)
  qed
qed

subsection \<open>Walking a represented table\<close>

lemma dup_walk_chain:
  "chain (dup_next m) p ds None \<Longrightarrow> dup_walk m p (map (\<lambda>d. the (dup_obj m d)) ds)"
proof (induction ds arbitrary: p)
  case Nil
  then show ?case by simp
next
  case (Cons d ds)
  from Cons.prems have p: "p = Some d" by simp
  from Cons.prems obtain p' where p': "dup_next m d = Some p'" "chain (dup_next m) p' ds None"
    by (auto split: option.splits)
  from p'(1) obtain dn where dn: "dup_mem m d = Some dn" and "p' = next_duplicate dn"
    by (auto simp: dup_next_def)
  with p'(2) Cons.IH have "dup_walk m (next_duplicate dn) (map (\<lambda>d. the (dup_obj m d)) ds)"
    by simp
  with p dn show ?case by (simp add: dup_obj_def)
qed

lemma fill_walk_chain:
  assumes "chain (fill_next m) p (map fst fds) None"
    "list_all (fill_ok (fill_dup_ptrs m) (dup_next m)) fds"
  shows "fill_walk m p
    (map (\<lambda>(f, ds). (the (fill_obj m f), map (\<lambda>d. the (dup_obj m d)) ds)) fds)"
  using assms
proof (induction fds arbitrary: p)
  case Nil
  then show ?case by simp
next
  case (Cons fd fds)
  obtain a ds where fd: "fd = (a, ds)" by (cases fd)
  from Cons.prems(1) fd have p: "p = Some a" by simp
  from Cons.prems(1) fd obtain p' where p': "fill_next m a = Some p'"
    "chain (fill_next m) p' (map fst fds) None"
    by (auto split: option.splits)
  from p'(1) obtain f where f: "fill_mem m a = Some f" and "p' = next_fill f"
    by (auto simp: fill_next_def)
  with p'(2) have rest: "chain (fill_next m) (next_fill f) (map fst fds) None" by simp
  from Cons.prems(2) fd f have "chain (dup_next m) (first_duplicate f) ds None"
    by (simp add: fill_dup_ptrs_def)
  then have "dup_walk m (first_duplicate f) (map (\<lambda>d. the (dup_obj m d)) ds)"
    by (rule dup_walk_chain)
  moreover from Cons.prems(2) have "list_all (fill_ok (fill_dup_ptrs m) (dup_next m)) fds"
    by simp
  from Cons.IH [OF rest this]
  have "fill_walk m (next_fill f)
    (map (\<lambda>(f, ds). (the (fill_obj m f), map (\<lambda>d. the (dup_obj m d)) ds)) fds)" .
  ultimately show ?case using p f fd by (simp add: fill_obj_def)
qed

lemma represents_table_holds:
  assumes "represents t m sh"
  shows "table_holds t m (contents m sh)"
proof -
  have "slot_holds m (buckets t ! i) (contents m sh ! i)" if i: "i < length sh" for i
  proof (cases "sh ! i")
    case None
    with represents_slot [OF assms i] i show ?thesis
      by (simp add: slot_holds_def contents_nth)
  next
    case (Some bf)
    obtain b fds where bf: "bf = (b, fds)" by (cases bf)
    from represents_slot [OF assms i] Some bf
    obtain bk :: hash_table_bucket_t where bk: "bucket_mem m b = Some bk"
      and pb: "buckets t ! i = Some b"
      and ch: "chain (fill_next m) (first_fill bk) (map fst fds) None"
      and fo: "list_all (fill_ok (fill_dup_ptrs m) (dup_next m)) fds"
      by (cases "bucket_mem m b") auto
    from fill_walk_chain [OF ch fo] bk pb Some bf i show ?thesis
      by (simp add: slot_holds_def contents_nth)
  qed
  with represents_length [OF assms] show ?thesis
    by (simp add: table_holds_def list_all2_conv_all_nth contents_def)
qed

lemma dup_walk_unique: "dup_walk m p xs \<Longrightarrow> dup_walk m p ys \<Longrightarrow> xs = ys"
proof (induction xs arbitrary: p ys)
  case Nil
  then show ?case by (cases ys) simp_all
next
  case (Cons x xs)
  then show ?case by (cases ys) (auto split: option.splits)
qed

lemma fill_walk_unique: "fill_walk m p xs \<Longrightarrow> fill_walk m p ys \<Longrightarrow> xs = ys"
proof (induction xs arbitrary: p ys)
  case Nil
  then show ?case by (cases ys) simp_all
next
  case (Cons x xs)
  show ?case
  proof (cases ys)
    case Nil
    with Cons.prems show ?thesis by simp
  next
    case (Cons y ys')
    with Cons.prems obtain a f where "p = Some a" "fill_mem m a = Some f"
      and x: "fill_object f = fst x" "dup_walk m (first_duplicate f) (snd x)"
        "fill_walk m (next_fill f) xs"
      and y: "fill_object f = fst y" "dup_walk m (first_duplicate f) (snd y)"
        "fill_walk m (next_fill f) ys'"
      by (auto split: option.splits)
    from x(1) y(1) dup_walk_unique [OF x(2) y(2)] have "x = y" by (simp add: prod_eq_iff)
    moreover from Cons.IH [OF x(3) y(3)] have "xs = ys'" .
    ultimately show ?thesis using Cons by simp
  qed
qed

lemma table_holds_unique:
  assumes "table_holds t m A" "table_holds t m A'"
  shows "A = A'"
proof -
  from assms have len: "length A = length (buckets t)" "length A' = length (buckets t)"
    by (auto simp: table_holds_def dest: list_all2_lengthD)
  have "A ! i = A' ! i" if "i < length (buckets t)" for i
  proof -
    from assms that have a: "slot_holds m (buckets t ! i) (A ! i)"
      and b: "slot_holds m (buckets t ! i) (A' ! i)"
      by (simp_all add: table_holds_def list_all2_conv_all_nth)
    then show ?thesis
      by (auto simp: slot_holds_def split: option.splits dest: fill_walk_unique)
  qed
  with len show ?thesis by (simp add: list_eq_iff_nth_eq)
qed

subsection \<open>Order of the chains\<close>

lemma order_sym:
  "consistent_total_order cmp \<Longrightarrow> 0 < cmp a b \<Longrightarrow> cmp b a < 0"
  by (simp add: consistent_total_order_def)

lemma order_eq_sym:
  assumes "consistent_total_order cmp" "cmp a b = 0"
  shows "cmp b a = 0"
proof -
  from assms(1) have "(cmp b a < 0) = (0 < cmp a b)" "(cmp a b < 0) = (0 < cmp b a)"
    by (simp_all add: consistent_total_order_def)
  with assms(2) show ?thesis by simp
qed

lemma order_trans:
  "consistent_total_order cmp \<Longrightarrow> cmp a b \<le> 0 \<Longrightarrow> cmp b c \<le> 0 \<Longrightarrow> cmp a c \<le> 0"
  unfolding consistent_total_order_def by blast

lemma order_trans_strict:
  assumes o: "consistent_total_order cmp" and ab: "cmp a b < 0" and bc: "cmp b c \<le> 0"
  shows "cmp a c < 0"
proof (rule ccontr)
  assume "\<not> cmp a c < 0"
  moreover from ab have "cmp a b \<le> 0" by simp
  from order_trans [OF o this bc] have "cmp a c \<le> 0" .
  ultimately have "cmp a c = 0" by simp
  with o have "cmp c a = 0" by (rule order_eq_sym)
  then have "cmp c a \<le> 0" by simp
  from order_trans [OF o bc this] have "cmp b a \<le> 0" .
  moreover from o ab have "0 < cmp b a" by (simp add: consistent_total_order_def)
  ultimately show False by simp
qed

lemma order_trans_strict':
  assumes o: "consistent_total_order cmp" and ab: "cmp a b \<le> 0" and bc: "cmp b c < 0"
  shows "cmp a c < 0"
proof (rule ccontr)
  assume "\<not> cmp a c < 0"
  moreover from bc have "cmp b c \<le> 0" by simp
  from order_trans [OF o ab this] have "cmp a c \<le> 0" .
  ultimately have "cmp a c = 0" by simp
  with o have "cmp c a = 0" by (rule order_eq_sym)
  then have "cmp c a \<le> 0" by simp
  from order_trans [OF o this ab] have "cmp c b \<le> 0" .
  moreover from o bc have "0 < cmp c b" by (simp add: consistent_total_order_def)
  ultimately show False by simp
qed

lemma spec_chain_insert_reps:
  "x \<in> set (map fst (fst (spec_chain_insert cmp obj es))) \<Longrightarrow>
   x = obj \<or> x \<in> set (map fst es)"
proof (induction es)
  case Nil
  then show ?case by simp
next
  case (Cons e es)
  obtain r ds where e: "e = (r, ds)" by (cases e)
  obtain es' k where ins: "spec_chain_insert cmp obj es = (es', k)"
    by (cases "spec_chain_insert cmp obj es")
  show ?case
  proof (cases "cmp r obj = 0")
    case True
    with Cons.prems e show ?thesis by simp
  next
    case ne: False
    show ?thesis
    proof (cases "cmp r obj < 0")
      case True
      with ne Cons.prems e ins have "x = r \<or> x \<in> set (map fst es')" by simp
      with Cons.IH ins e show ?thesis by auto
    next
      case False
      with ne Cons.prems e show ?thesis by simp
    qed
  qed
qed

lemma spec_chain_insert_sorted:
  assumes o: "consistent_total_order cmp"
    and s: "sorted_wrt (\<lambda>x y. cmp x y < 0) (map fst es)"
  shows "sorted_wrt (\<lambda>x y. cmp x y < 0) (map fst (fst (spec_chain_insert cmp obj es)))"
  using s
proof (induction es)
  case Nil
  then show ?case by simp
next
  case (Cons e es)
  obtain r ds where e: "e = (r, ds)" by (cases e)
  obtain es' k where ins: "spec_chain_insert cmp obj es = (es', k)"
    by (cases "spec_chain_insert cmp obj es")
  from Cons.prems e have above: "\<And>x. x \<in> set (map fst es) \<Longrightarrow> cmp r x < 0"
    and rest: "sorted_wrt (\<lambda>x y. cmp x y < 0) (map fst es)" by auto
  show ?case
  proof (cases "cmp r obj = 0")
    case True
    with Cons.prems e show ?thesis by simp
  next
    case ne: False
    show ?thesis
    proof (cases "cmp r obj < 0")
      case True
      have "cmp r x < 0" if "x \<in> set (map fst es')" for x
      proof -
        from that ins have "x \<in> set (map fst (fst (spec_chain_insert cmp obj es)))" by simp
        from spec_chain_insert_reps [OF this] True above show ?thesis by blast
      qed
      moreover from Cons.IH [OF rest] ins
      have "sorted_wrt (\<lambda>x y. cmp x y < 0) (map fst es')" by simp
      ultimately show ?thesis using ne True e ins by simp
    next
      case False
      with ne have "0 < cmp r obj" by simp
      with o have lt: "cmp obj r < 0" by (rule order_sym)
      have "cmp obj x < 0" if "x \<in> set (map fst es)" for x
      proof -
        from above [OF that] have "cmp r x \<le> 0" by simp
        with o lt show ?thesis by (rule order_trans_strict)
      qed
      with lt above rest e ne False show ?thesis by simp
    qed
  qed
qed

lemma strictly_ordered_insert:
  assumes "consistent_total_order cmp" "strictly_ordered cmp c"
  shows "strictly_ordered cmp (fst (spec_insert cmp obj c))"
proof (cases c)
  case None
  then show ?thesis by (simp add: strictly_ordered_def)
next
  case (Some es)
  obtain es' k where ins: "spec_chain_insert cmp obj es = (es', k)"
    by (cases "spec_chain_insert cmp obj es")
  from assms(2) Some have "sorted_wrt (\<lambda>x y. cmp x y < 0) (map fst es)"
    by (simp add: strictly_ordered_def)
  from spec_chain_insert_sorted [OF assms(1) this, of obj] ins Some show ?thesis
    by (simp add: strictly_ordered_def)
qed

subsection \<open>Counters and bytes\<close>

lemma ulong_succ:
  fixes x :: ulong
  assumes "Suc (unat x) < 2 ^ 64"
  shows "unat (x + 1) = Suc (unat x)"
proof -
  from assms have "unat x + unat (1 :: ulong) < 2 ^ LENGTH(64)" by simp
  then have "unat (x + 1) = unat x + unat (1 :: ulong)" by (simp only: unat_add_lem)
  then show ?thesis by simp
qed

lemma accounted_inserted:
  assumes acc: "accounted t m sh" and ins: "inserted t m sh obj i t' m'"
  shows "accounted t' m' (insert_shape t m obj i sh)"
proof -
  let ?sh' = "insert_shape t m obj i sh"
  let ?nb = "length (concat (map slot_buckets sh))"
  let ?nf = "length (concat (map slot_fills sh))"
  let ?nd = "length (concat (map slot_dups sh))"
  obtain c' kind where spec: "spec_insert (compare_function t) obj (contents m sh ! i) = (c', kind)"
    by (cases "spec_insert (compare_function t) obj (contents m sh ! i)")
  obtain nb nf nd where added: "nodes_added kind = (nb, nf, nd)"
    by (cases "nodes_added kind")
  from ins spec added have
    cnt: "(number_of_buckets_filled t', number_of_collisions t', number_of_duplicates t') =
      count_insert kind t"
    and str: "same_strategies t t'"
    and lb: "length (concat (map slot_buckets ?sh')) = ?nb + nb"
    and lf: "length (concat (map slot_fills ?sh')) = ?nf + nf"
    and ld: "length (concat (map slot_dups ?sh')) = ?nd + nd"
    and live: "live_bytes m' = live_bytes m + sizeof_hash_table_bucket_t * nb +
      sizeof_hash_table_fill_t * nf + sizeof_hash_table_duplicate_t * nd"
    and bound: "live_bytes m' < 2 ^ 64"
    by (simp_all add: inserted_def)
  from acc have a1: "unat (number_of_buckets_filled t) = ?nb"
    and a2: "unat (number_of_buckets_filled t) + unat (number_of_collisions t) = ?nf"
    and a3: "unat (number_of_duplicates t) = ?nd"
    and a4: "sizeof_hash_table_t + sizeof_pointer * unat (number_of_total_buckets t) +
      sizeof_hash_table_bucket_t * ?nb + sizeof_hash_table_fill_t * ?nf +
      sizeof_hash_table_duplicate_t * ?nd \<le> live_bytes m"
    by (simp_all add: accounted_def)
  from str have n: "number_of_total_buckets t' = number_of_total_buckets t"
    by (simp add: same_strategies_def)
  show ?thesis
  proof (cases kind)
    case Bucket_Filled
    with added have nn: "nb = 1" "nf = 1" "nd = 0" by simp_all
    from a4 live bound nn a1 have "Suc (unat (number_of_buckets_filled t)) < 2 ^ 64"
      by (simp add: sizeof_hash_table_bucket_t_def)
    from ulong_succ [OF this] cnt Bucket_Filled a1 a2 a3 a4 lb lf ld live bound nn n
    show ?thesis by (simp add: accounted_def)
  next
    case Collision
    with added have nn: "nb = 0" "nf = 1" "nd = 0" by simp_all
    from a4 live bound nn a2 have "Suc (unat (number_of_collisions t)) < 2 ^ 64"
      by (simp add: sizeof_hash_table_fill_t_def)
    from ulong_succ [OF this] cnt Collision a1 a2 a3 a4 lb lf ld live bound nn n
    show ?thesis by (simp add: accounted_def)
  next
    case Duplicate
    with added have nn: "nb = 0" "nf = 0" "nd = 1" by simp_all
    from a4 live bound nn a3 have "Suc (unat (number_of_duplicates t)) < 2 ^ 64"
      by (simp add: sizeof_hash_table_duplicate_t_def)
    from ulong_succ [OF this] cnt Duplicate a1 a2 a3 a4 lb lf ld live bound nn n
    show ?thesis by (simp add: accounted_def)
  qed
qed

lemma grown_inserted:
  assumes "inserted t m sh obj i t' m'"
  shows "grown sh (insert_shape t m obj i sh)"
proof -
  obtain c' kind where spec: "spec_insert (compare_function t) obj (contents m sh ! i) = (c', kind)"
    by (cases "spec_insert (compare_function t) obj (contents m sh ! i)")
  obtain nb nf nd where added: "nodes_added kind = (nb, nf, nd)"
    by (cases "nodes_added kind")
  from assms spec added show ?thesis by (simp add: inserted_def grown_def)
qed

lemma accounted_frame:
  assumes "accounted t m sh"
    "live_bytes m' = live_bytes m \<or> live_bytes m \<le> live_bytes m' \<and> live_bytes m' < 2 ^ 64"
  shows "accounted t m' sh"
  using assms by (auto simp: accounted_def)

lemma Size_accounted:
  assumes "accounted t m sh"
  shows "unat (Hash_Table_Size t) =
    sizeof_hash_table_t + sizeof_pointer * unat (number_of_total_buckets t) +
    sizeof_hash_table_bucket_t * length (concat (map slot_buckets sh)) +
    sizeof_hash_table_fill_t * length (concat (map slot_fills sh)) +
    sizeof_hash_table_duplicate_t * length (concat (map slot_dups sh))"
proof -
  let ?n = "unat (number_of_total_buckets t)"
  let ?f = "unat (number_of_buckets_filled t)"
  let ?c = "unat (number_of_collisions t)"
  let ?d = "unat (number_of_duplicates t)"
  let ?total = "sizeof_hash_table_t + ?n * sizeof_pointer + ?f * sizeof_hash_table_bucket_t +
    (?f + ?c) * sizeof_hash_table_fill_t + ?d * sizeof_hash_table_duplicate_t"
  let ?S = "sizeof_hash_table_t + sizeof_pointer * ?n +
    sizeof_hash_table_bucket_t * length (concat (map slot_buckets sh)) +
    sizeof_hash_table_fill_t * length (concat (map slot_fills sh)) +
    sizeof_hash_table_duplicate_t * length (concat (map slot_dups sh))"
  from assms have a1: "?f = length (concat (map slot_buckets sh))"
    and a2: "?f + ?c = length (concat (map slot_fills sh))"
    and a3: "?d = length (concat (map slot_dups sh))"
    and a4: "?S \<le> live_bytes m" and a5: "live_bytes m < 2 ^ 64"
    by (simp_all add: accounted_def)
  have eq: "?total = ?S" unfolding a1 [symmetric] a2 [symmetric] a3 [symmetric]
    by (simp add: mult.commute)
  have "Hash_Table_Size t = of_nat ?total"
    by (simp add: Hash_Table_Size_def Let_def)
  moreover from a4 a5 have "?S < 2 ^ 64" by (rule le_less_trans)
  then have "?total < 2 ^ 64" by (simp only: eq)
  then have "unat (of_nat ?total :: ulong) = ?total"
    by (intro of_nat_inverse [OF refl]) simp
  ultimately have "unat (Hash_Table_Size t) = ?total" by simp
  then show ?thesis by (simp only: eq)
qed

lemma Size_grown:
  assumes "accounted t m sh" "accounted t' m' sh'" "grown sh sh'"
    "number_of_total_buckets t' = number_of_total_buckets t"
  shows "Hash_Table_Size t \<le> Hash_Table_Size t'"
proof -
  from assms(3) have "unat (Hash_Table_Size t) \<le> unat (Hash_Table_Size t')"
    unfolding Size_accounted [OF assms(1)] Size_accounted [OF assms(2)] assms(4) grown_def
    by (intro add_mono mult_le_mono2) simp_all
  then show ?thesis by (simp add: word_le_nat_alt)
qed

subsection \<open>Construction\<close>

lemma Init_well_formed:
  assumes "Hash_Table_Init n hash_fun compare_fun search_fun free_fun m0 = (Some t, m1)"
  shows "well_formed t m1 (replicate (unat n) None)"
    and "buckets t = replicate (unat n) None"
    and "number_of_total_buckets t = n"
    and "number_of_buckets_filled t = 0" "number_of_collisions t = 0"
      "number_of_duplicates t = 0"
    and "hash_function t = hash_fun" "compare_function t = compare_fun"
      "search_function t = search_fun" "free_function t = free_fun"
proof -
  let ?m1 = "m0\<lparr>next_addr := Suc (next_addr m0),
    live_bytes := live_bytes m0 + 1 * sizeof_hash_table_t,
    calloc_calls := Suc (calloc_calls m0)\<rparr>"
  from assms have c1: "calloc 1 sizeof_hash_table_t m0 = (Some (next_addr m0), ?m1)"
    by (cases rule: calloc_cases [of 1 sizeof_hash_table_t m0])
       (simp_all add: Hash_Table_Init_def)
  with assms have c2: "calloc (unat n) sizeof_pointer ?m1 =
    (Some (next_addr ?m1), ?m1\<lparr>next_addr := Suc (next_addr ?m1),
      live_bytes := live_bytes ?m1 + unat n * sizeof_pointer,
      calloc_calls := Suc (calloc_calls ?m1)\<rparr>)"
    and room: "live_bytes ?m1 + unat n * sizeof_pointer < 2 ^ 64"
    by (cases rule: calloc_cases [of "unat n" sizeof_pointer ?m1];
        simp add: Hash_Table_Init_def)+
  from assms c1 c2 have t: "t = \<lparr>buckets = replicate (unat n) None,
      number_of_total_buckets = n, number_of_buckets_filled = 0, number_of_collisions = 0,
      number_of_duplicates = 0, hash_function = hash_fun, compare_function = compare_fun,
      search_function = search_fun, free_function = free_fun\<rparr>"
    and m1: "m1 = ?m1\<lparr>next_addr := Suc (next_addr ?m1),
      live_bytes := live_bytes ?m1 + unat n * sizeof_pointer,
      calloc_calls := Suc (calloc_calls ?m1)\<rparr>"
    by (simp_all add: Hash_Table_Init_def)
  have nil: "concat (map g (replicate k None)) = []" if "g None = []" for g :: "slot_shape \<Rightarrow> addr list" and k
    using that by (induction k) simp_all
  have "represents t m1 (replicate (unat n) None)"
    by (simp add: represents_def t nil list_all2_conv_all_nth)
  moreover have "accounted t m1 (replicate (unat n) None)"
    using room by (simp add: accounted_def t m1 nil mult.commute)
  ultimately show "well_formed t m1 (replicate (unat n) None)" by (simp add: well_formed_def)
  show "buckets t = replicate (unat n) None" "number_of_total_buckets t = n"
    "number_of_buckets_filled t = 0" "number_of_collisions t = 0" "number_of_duplicates t = 0"
    "hash_function t = hash_fun" "compare_function t = compare_fun"
    "search_function t = search_fun" "free_function t = free_fun"
    by (simp_all add: t)
qed

subsection \<open>What a lookup does to the memory\<close>

lemma collect_match_effect:
  assumes ch: "chain (dup_next m) (first_duplicate f) ds None"
  shows "\<exists>r. collect_match m n c f = Some r \<and> lookup_result m n c r"
proof (cases rule: calloc_cases [of "unat n" sizeof_pointer m])
  case fail
  from collect_match_fail [OF fail(2)] show ?thesis
    by (simp add: nodes_kept_def lookup_result_def)
next
  case ok
  let ?m1 = "m\<lparr>next_addr := Suc (next_addr m),
    live_bytes := live_bytes m + unat n * sizeof_pointer,
    calloc_calls := Suc (calloc_calls m)\<rparr>"
  show ?thesis
  proof (cases "n = 0")
    case True
    with ok(1) show ?thesis by (simp add: collect_match_def lookup_result_def)
  next
    case False
    then have pos: "0 < unat n" by (simp add: unat_gt_0)
    have dn: "dup_next ?m1 = dup_next m" by (simp add: dup_next_def fun_eq_iff)
    from ch have ch1: "chain (dup_next ?m1) (first_duplicate f) ds None" by (simp only: dn)
    have len: "length ((replicate (unat n) None)[0 := Some (fill_object f)]) = unat n" by simp
    from collect_duplicates_chain [OF ch1 len, of "c + 1"]
    obtain arr c' where loop: "collect_duplicates ?m1 n (first_duplicate f)
        ((replicate (unat n) None)[0 := Some (fill_object f)]) (c + 1) = Some (Inr (arr, c'))"
      and "length arr = unat n"
      by simp
    with ok pos False show ?thesis
      by (simp add: collect_match_def nodes_kept_def lookup_result_def)
  qed
qed

lemma represents_dup_chain:
  assumes rep: "represents t m sh" and i: "i < length sh" and slot: "sh ! i = Some (b, fds)"
    and mem: "(f, ds) \<in> set fds"
  shows "\<exists>fl. fill_mem m f = Some fl \<and> chain (dup_next m) (first_duplicate fl) ds None"
proof -
  from represents_slot [OF rep i] slot
  have "list_all (fill_ok (fill_dup_ptrs m) (dup_next m)) fds" by simp
  with mem have "fill_ok (fill_dup_ptrs m) (dup_next m) (f, ds)"
    by (simp add: list_all_iff del: fill_ok.simps)
  then show ?thesis
    by (cases "fill_mem m f") (simp_all add: fill_dup_ptrs_def)
qed

lemma Match_effect:
  assumes rep: "represents t m sh"
    and h: "unat (hash_function t pattern (number_of_total_buckets t)) = i"
    and i: "i < length sh"
  shows "\<exists>r. Hash_Table_Match t m pattern c n = Some r \<and> lookup_result m n c r"
proof (cases "sh ! i")
  case None
  with Match_represented [OF rep h i, of c n] show ?thesis
    by (simp add: nodes_kept_def lookup_result_def)
next
  case (Some bf)
  obtain b fds where bf: "bf = (b, fds)" by (cases bf)
  with Some have slot: "sh ! i = Some (b, fds)" by simp
  show ?thesis
  proof (cases "find (\<lambda>fd. search_function t pattern (the (fill_obj m (fst fd))) = 1) fds")
    case None
    with Match_represented [OF rep h i, of c n] slot show ?thesis
      by (simp add: nodes_kept_def lookup_result_def)
  next
    case found: (Some fd)
    obtain f ds where fd: "fd = (f, ds)" by (cases fd)
    from found fd have "(f, ds) \<in> set fds" by (auto simp: find_Some_iff in_set_conv_nth)
    from represents_dup_chain [OF rep i slot this]
    obtain fl where fl: "fill_mem m f = Some fl"
      and ch: "chain (dup_next m) (first_duplicate fl) ds None" by blast
    from Match_represented [OF rep h i, of c n] slot found fd fl
    have "Hash_Table_Match t m pattern c n = collect_match m n c fl" by simp
    with collect_match_effect [OF ch, of n c] show ?thesis by simp
  qed
qed

subsection \<open>Every operation keeps the table well-formed\<close>

lemma index_in_bounds:
  assumes "represents t m sh" "hash_in_bounds t"
  shows "unat (hash_function t pattern (number_of_total_buckets t)) < length sh"
proof -
  from assms(2) have "hash_function t pattern (number_of_total_buckets t) <
    number_of_total_buckets t" by (simp add: hash_in_bounds_def)
  then have "unat (hash_function t pattern (number_of_total_buckets t)) <
    unat (number_of_total_buckets t)" by (simp add: word_less_nat_alt)
  with assms(1) represents_length [OF assms(1)] show ?thesis by (simp add: represents_def)
qed

lemma well_formed_frame:
  assumes wf: "well_formed t m sh" and kept: "nodes_kept m m'"
    and live: "live_bytes m' = live_bytes m \<or>
      live_bytes m \<le> live_bytes m' \<and> live_bytes m' < 2 ^ 64"
  shows "well_formed t m' sh" "contents m' sh = contents m sh"
proof -
  from wf have rep: "represents t m sh" and acc: "accounted t m sh"
    by (simp_all add: well_formed_def)
  from kept have eq: "bucket_mem m' = bucket_mem m" "fill_mem m' = fill_mem m"
    "dup_mem m' = dup_mem m" and mono: "next_addr m \<le> next_addr m'"
    by (simp_all add: nodes_kept_def)
  from rep eq mono have "represents t m' sh" by (rule represents_frame) simp_all
  moreover from acc live have "accounted t m' sh" by (rule accounted_frame)
  ultimately show "well_formed t m' sh" by (simp add: well_formed_def)
  from eq have "fill_obj m' = fill_obj m" "dup_obj m' = dup_obj m"
    by (simp_all add: fill_obj_def dup_obj_def fun_eq_iff)
  then show "contents m' sh = contents m sh" by (simp add: contents_def)
qed

lemma list_all_update:
  "list_all P xs \<Longrightarrow> P y \<Longrightarrow> list_all P (xs[i := y])"
  by (auto simp: list_all_iff dest: set_update_subset_insert [THEN subsetD])

lemma kept_case:
  assumes wf: "well_formed t m sh" and kept: "nodes_kept m m'"
    and live: "live_bytes m' = live_bytes m \<or>
      live_bytes m \<le> live_bytes m' \<and> live_bytes m' < 2 ^ 64"
  shows "kept_or_grown t m sh t m' sh"
  using well_formed_frame [OF wf kept live]
  by (simp add: kept_or_grown_def same_strategies_def grown_def chains_ordered_def)

lemma Insert_well_formed:
  assumes wf: "well_formed t m sh"
    and h: "unat (hash_function t pattern (number_of_total_buckets t)) = i"
    and i: "i < length sh"
  shows "\<exists>r t' m' sh'. Hash_Table_Insert t m obj pattern = Some (Inr (r, t', m')) \<and>
    (r = 0 \<or> r = 1) \<and> kept_or_grown t m sh t' m' sh'"
proof -
  from wf have rep: "represents t m sh" and acc: "accounted t m sh"
    by (simp_all add: well_formed_def)
  from Insert_represented [OF rep h i, of obj] show ?thesis
  proof (elim disjE exE conjE)
    fix m'
    assume run: "Hash_Table_Insert t m obj pattern = Some (Inr (0, t, m'))"
      and kept: "nodes_kept m m'" and live: "live_bytes m' = live_bytes m"
    from kept_case [OF wf kept] live have "kept_or_grown t m sh t m' sh" by simp
    with run show ?thesis by blast
  next
    fix t' m'
    assume run: "Hash_Table_Insert t m obj pattern = Some (Inr (1, t', m'))"
      and ins: "inserted t m sh obj i t' m'"
    let ?sh' = "insert_shape t m obj i sh"
    obtain c' kind where spec: "spec_insert (compare_function t) obj (contents m sh ! i) = (c', kind)"
      by (cases "spec_insert (compare_function t) obj (contents m sh ! i)")
    obtain nb nf nd where added: "nodes_added kind = (nb, nf, nd)"
      by (cases "nodes_added kind")
    from ins spec added have rep': "represents t' m' ?sh'"
      and cont: "contents m' ?sh' = (contents m sh)[i := c']"
      and str: "same_strategies t t'"
      by (simp_all add: inserted_def)
    from rep' accounted_inserted [OF acc ins] have wf': "well_formed t' m' ?sh'"
      by (simp add: well_formed_def)
    have "chains_ordered t' m' ?sh'"
      if o: "consistent_total_order (compare_function t)" and s: "chains_ordered t m sh"
    proof -
      from s i have "strictly_ordered (compare_function t) (contents m sh ! i)"
        by (simp add: chains_ordered_def list_all_length contents_def)
      from strictly_ordered_insert [OF o this, of obj] spec
      have "strictly_ordered (compare_function t) c'" by simp
      with s str show ?thesis
        unfolding chains_ordered_def cont
        by (simp add: same_strategies_def list_all_update)
    qed
    with wf' str grown_inserted [OF ins] have "kept_or_grown t m sh t' m' ?sh'"
      by (simp add: kept_or_grown_def)
    with run show ?thesis by blast
  qed
qed

subsection \<open>Operations one after another\<close>

lemma kept_or_grown_trans:
  assumes "kept_or_grown t m sh t1 m1 sh1" "kept_or_grown t1 m1 sh1 t' m' sh'"
  shows "kept_or_grown t m sh t' m' sh'"
  using assms by (auto simp: kept_or_grown_def same_strategies_def grown_def)

lemma kept_or_grown_after_kept:
  assumes wf: "well_formed t m sh" and kept: "nodes_kept m m1"
    and live: "live_bytes m1 = live_bytes m \<or>
      live_bytes m \<le> live_bytes m1 \<and> live_bytes m1 < 2 ^ 64"
    and step: "kept_or_grown t m1 sh t' m' sh'"
  shows "kept_or_grown t m sh t' m' sh'"
  using kept_case [OF wf kept live] step by (rule kept_or_grown_trans)

lemma single_array: "length arr = unat (1 :: ulong) \<Longrightarrow> \<exists>x. arr = [x]"
  by (cases arr) simp_all

lemma First_Match_well_formed:
  assumes wf: "well_formed t m sh"
    and h: "unat (hash_function t pattern (number_of_total_buckets t)) = i"
    and i: "i < length sh"
  shows "\<exists>found m'. Hash_Table_First_Match t m pattern = Some (Inr (found, m')) \<and>
    nodes_kept m m' \<and> live_bytes m' = live_bytes m"
proof -
  from wf have rep: "represents t m sh" by (simp add: well_formed_def)
  from Match_effect [OF rep h i, of 0 1]
  obtain r where run: "Hash_Table_Match t m pattern 0 1 = Some r"
    and res: "lookup_result m 1 0 r" by blast
  from res obtain recs c' m1 where r: "r = Inr (recs, c', m1)"
    by (cases r) (auto simp: lookup_result_def)
  show ?thesis
  proof (cases recs)
    case None
    with run r res show ?thesis
      by (simp add: Hash_Table_First_Match_def lookup_result_def)
  next
    case (Some arr)
    with res r have "length arr = unat (1 :: ulong)" by (simp add: lookup_result_def)
    then obtain x where "arr = [x]" using single_array by blast
    with Some run r res show ?thesis
      by (simp add: Hash_Table_First_Match_def lookup_result_def free_def nodes_kept_def
          sizeof_pointer_def)
  qed
qed

lemma Insert_No_Duplicate_well_formed:
  assumes wf: "well_formed t m sh"
    and h: "unat (hash_function t pattern (number_of_total_buckets t)) = i"
    and i: "i < length sh"
  shows "\<exists>r found t' m' sh'.
    Hash_Table_Insert_No_Duplicate t m obj pattern fd = Some (Inr (r, found, t', m')) \<and>
    kept_or_grown t m sh t' m' sh'"
proof -
  from wf have rep: "represents t m sh" by (simp add: well_formed_def)
  from Match_effect [OF rep h i, of 0 1]
  obtain r where run: "Hash_Table_Match t m pattern 0 1 = Some r"
    and res: "lookup_result m 1 0 r" by blast
  from res obtain recs c' m1 where r: "r = Inr (recs, c', m1)"
    by (cases r) (auto simp: lookup_result_def)
  from res r have kept: "nodes_kept m m1" by (simp add: lookup_result_def)
  from res r have live: "live_bytes m1 = live_bytes m \<or>
      live_bytes m \<le> live_bytes m1 \<and> live_bytes m1 < 2 ^ 64"
    by (cases recs) (simp_all add: lookup_result_def)
  show ?thesis
  proof (cases "c' = 0")
    case True
    from well_formed_frame(1) [OF wf kept live] have wf1: "well_formed t m1 sh" .
    from Insert_well_formed [OF wf1 h i, of obj]
    obtain r' t' m' sh' where ins: "Hash_Table_Insert t m1 obj pattern = Some (Inr (r', t', m'))"
      and kg: "kept_or_grown t m1 sh t' m' sh'" by blast
    from kept_or_grown_after_kept [OF wf kept live kg]
    have "kept_or_grown t m sh t' m' sh'" .
    moreover from run r True ins
    have "Hash_Table_Insert_No_Duplicate t m obj pattern fd =
      Some (Inr (if r' = 0 then - 1 else 1, fd, t', m'))"
      by (simp add: Hash_Table_Insert_No_Duplicate_def)
    ultimately show ?thesis by blast
  next
    case False
    with res r obtain arr where arr: "recs = Some arr" "length arr = unat (1 :: ulong)"
      and lb: "live_bytes m1 = live_bytes m + unat (1 :: ulong) * sizeof_pointer"
      by (cases recs) (auto simp: lookup_result_def)
    from arr(2) obtain x where x: "arr = [x]" using single_array by blast
    have run': "Hash_Table_Insert_No_Duplicate t m obj pattern fd =
      Some (Inr (0, x, t, free (sizeof_pointer * Suc 0) m1))"
      using run r False arr(1) x by (simp add: Hash_Table_Insert_No_Duplicate_def)
    have "nodes_kept m (free (sizeof_pointer * Suc 0) m1)"
      using kept by (simp add: nodes_kept_def free_def)
    moreover have "live_bytes (free (sizeof_pointer * Suc 0) m1) = live_bytes m"
      using lb by (simp add: free_def)
    ultimately have "kept_or_grown t m sh t (free (sizeof_pointer * Suc 0) m1) sh"
      by (intro kept_case [OF wf]) simp_all
    with run' show ?thesis by blast
  qed
qed

lemma step_well_formed:
  assumes wf: "well_formed t m sh"
    and i: "unat (hash_function t (op_pattern op) (number_of_total_buckets t)) < length sh"
  shows "(\<exists>t' m' sh'. step t m op = Some (Inr (t', m')) \<and> kept_or_grown t m sh t' m' sh') \<or>
         step t m op = Some (Inl RecordIndexOutOfBounds) \<and> \<not> safe_op op"
proof (cases op)
  case (Op_Insert obj pattern)
  with Insert_well_formed [OF wf refl, of pattern obj] i show ?thesis by auto
next
  case (Op_Insert_No_Duplicate obj pattern fd)
  with Insert_No_Duplicate_well_formed [OF wf refl, of pattern obj fd] i show ?thesis by auto
next
  case (Op_Match pattern c n)
  from wf have rep: "represents t m sh" by (simp add: well_formed_def)
  from Match_effect [OF rep refl, of pattern c n] i Op_Match
  obtain r where run: "Hash_Table_Match t m pattern c n = Some r"
    and res: "lookup_result m n c r" by auto
  show ?thesis
  proof (cases r)
    case (Inl e)
    with res run Op_Match show ?thesis by (simp add: lookup_result_def)
  next
    case (Inr x)
    obtain recs c' m' where x: "x = (recs, c', m')" by (cases x)
    from res Inr x have kept: "nodes_kept m m'" by (simp add: lookup_result_def)
    from res Inr x have live: "live_bytes m' = live_bytes m \<or>
      live_bytes m \<le> live_bytes m' \<and> live_bytes m' < 2 ^ 64"
      by (cases recs) (simp_all add: lookup_result_def)
    from kept_case [OF wf kept live] run Inr x Op_Match show ?thesis by auto
  qed
next
  case (Op_First_Match pattern)
  from First_Match_well_formed [OF wf refl, of pattern] i Op_First_Match
  obtain found m' where run: "Hash_Table_First_Match t m pattern = Some (Inr (found, m'))"
    and kept: "nodes_kept m m'" and live: "live_bytes m' = live_bytes m" by auto
  from kept_case [OF wf kept] live have "kept_or_grown t m sh t m' sh" by simp
  with run Op_First_Match show ?thesis by auto
qed

lemma step_index:
  assumes "step t m op = Some (Inr (t', m'))"
  shows "unat (hash_function t (op_pattern op) (number_of_total_buckets t)) < length (buckets t)"
proof (rule ccontr)
  assume out: "\<not> unat (hash_function t (op_pattern op) (number_of_total_buckets t)) <
    length (buckets t)"
  then have "Hash_Table_Match t m (op_pattern op) c n = Some (Inl BucketIndexOutOfBounds)" for c n
    by (simp add: Hash_Table_Match_def)
  moreover from out
  have "Hash_Table_Insert t m obj (op_pattern op) = Some (Inl BucketIndexOutOfBounds)" for obj
    by (simp add: Hash_Table_Insert_def)
  ultimately show False using assms
    by (cases op)
       (simp_all add: Hash_Table_Insert_No_Duplicate_def Hash_Table_First_Match_def)
qed

lemma run_well_formed:
  assumes "well_formed t m sh" "run t m ops = Some (Inr (t', m'))"
  shows "\<exists>sh'. kept_or_grown t m sh t' m' sh'"
  using assms
proof (induction ops arbitrary: t m sh)
  case Nil
  then have "t' = t" "m' = m" by simp_all
  moreover have "nodes_kept m m" by (simp add: nodes_kept_def)
  from kept_case [OF Nil(1) this] have "kept_or_grown t m sh t m sh" by simp
  ultimately show ?case by blast
next
  case (Cons op ops)
  from Cons.prems(2) obtain t1 m1 where st: "step t m op = Some (Inr (t1, m1))"
    and rest: "run t1 m1 ops = Some (Inr (t', m'))"
    by (auto split: option.splits sum.splits)
  from Cons.prems(1) have "represents t m sh" by (simp add: well_formed_def)
  then have "length sh = length (buckets t)" by (rule represents_length)
  with step_index [OF st]
  have "unat (hash_function t (op_pattern op) (number_of_total_buckets t)) < length sh"
    by simp
  from step_well_formed [OF Cons.prems(1) this] st
  obtain sh1 where kg: "kept_or_grown t m sh t1 m1 sh1" by auto
  then have "well_formed t1 m1 sh1" by (simp add: kept_or_grown_def)
  from Cons.IH [OF this rest] obtain sh' where "kept_or_grown t1 m1 sh1 t' m' sh'" by blast
  with kg have "kept_or_grown t m sh t' m' sh'" by (rule kept_or_grown_trans)
  then show ?case by blast
qed

lemma run_returns:
  assumes "well_formed t m sh" "hash_in_bounds t" "list_all safe_op ops"
  shows "\<exists>t' m'. run t m ops = Some (Inr (t', m'))"
  using assms
proof (induction ops arbitrary: t m sh)
  case Nil
  then show ?case by simp
next
  case (Cons op ops)
  from Cons.prems(1) have rep: "represents t m sh" by (simp add: well_formed_def)
  from step_well_formed [OF Cons.prems(1) index_in_bounds [OF rep Cons.prems(2)], of op]
    Cons.prems(3)
  obtain t1 m1 sh1 where st: "step t m op = Some (Inr (t1, m1))"
    and kg: "kept_or_grown t m sh t1 m1 sh1" by auto
  from kg have wf1: "well_formed t1 m1 sh1" and str: "same_strategies t t1"
    by (simp_all add: kept_or_grown_def)
  from str Cons.prems(2) have hb: "hash_in_bounds t1"
    by (simp add: hash_in_bounds_def same_strategies_def)
  from Cons.prems(3) have "list_all safe_op ops" by simp
  from Cons.IH [OF wf1 hb this] st show ?case by simp
qed

subsection \<open>The lookup and the first matching entry\<close>

lemma first_match_shape:
  assumes i: "i < length sh" and slot: "sh ! i = Some (b, fds)"
  shows "first_match search pattern (contents m sh ! i) =
    map_option (\<lambda>(f, ds). (the (fill_obj m f), map (\<lambda>d. the (dup_obj m d)) ds))
      (find (\<lambda>fd. search pattern (the (fill_obj m (fst fd))) = 1) fds)"
proof -
  have "(\<lambda>x. search pattern
      (fst (case x of (f, ds) \<Rightarrow> (the (fill_obj m f), map (\<lambda>d. the (dup_obj m d)) ds))) = 1) =
    (\<lambda>fd. search pattern (the (fill_obj m (fst fd))) = 1)"
    by (rule ext) (simp add: case_prod_beta)
  then show ?thesis
    using i slot by (simp add: contents_nth first_match_def find_map_option)
qed

lemma Match_none:
  assumes rep: "represents t m sh"
    and h: "unat (hash_function t pattern (number_of_total_buckets t)) = i"
    and i: "i < length sh"
    and none: "first_match (search_function t) pattern (contents m sh ! i) = None"
  shows "Hash_Table_Match t m pattern c n =
    Some (Inr (None, if contents m sh ! i = None then 0 else c, m))"
proof (cases "sh ! i")
  case None
  with i have "contents m sh ! i = None" by (simp add: contents_nth)
  with Match_represented [OF rep h i, of c n] None show ?thesis by simp
next
  case (Some s)
  obtain b fds where s: "s = (b, fds)" by (cases s)
  from i Some s have "contents m sh ! i \<noteq> None" by (simp add: contents_nth)
  moreover from none first_match_shape [OF i, of b fds "search_function t" pattern m] Some s
  have "find (\<lambda>fd. search_function t pattern (the (fill_obj m (fst fd))) = 1) fds = None"
    by simp
  ultimately show ?thesis
    using Match_represented [OF rep h i, of c n] Some s by auto
qed

lemma Match_some:
  assumes rep: "represents t m sh"
    and h: "unat (hash_function t pattern (number_of_total_buckets t)) = i"
    and i: "i < length sh"
    and some: "first_match (search_function t) pattern (contents m sh ! i) = Some e"
  shows "\<exists>f ds. fill_object f = fst e \<and> chain (dup_next m) (first_duplicate f) ds None \<and>
    snd e = map (\<lambda>d. the (dup_obj m d)) ds \<and>
    Hash_Table_Match t m pattern c n = collect_match m n c f"
proof (cases "sh ! i")
  case None
  with i have "contents m sh ! i = None" by (simp add: contents_nth)
  with some show ?thesis by (simp add: first_match_def)
next
  case (Some s)
  obtain b fds where s: "s = (b, fds)" by (cases s)
  from some first_match_shape [OF i, of b fds "search_function t" pattern m] Some s
  obtain fd where fd: "find (\<lambda>fd. search_function t pattern (the (fill_obj m (fst fd))) = 1) fds
      = Some fd"
    and e: "e = (case fd of (f, ds) \<Rightarrow> (the (fill_obj m f), map (\<lambda>d. the (dup_obj m d)) ds))"
    by auto
  obtain f ds where fds: "fd = (f, ds)" by (cases fd)
  from fd fds have "(f, ds) \<in> set fds" by (auto simp: find_Some_iff)
  from represents_dup_chain [OF rep i _ this] Some s
  obtain fl where fl: "fill_mem m f = Some fl"
    and ch: "chain (dup_next m) (first_duplicate fl) ds None" by auto
  from fl have "fill_object fl = the (fill_obj m f)" by (simp add: fill_obj_def)
  with e fds have "fill_object fl = fst e" "snd e = map (\<lambda>d. the (dup_obj m d)) ds"
    by simp_all
  moreover from Match_represented [OF rep h i, of c n] Some s fd fds fl
  have "Hash_Table_Match t m pattern c n = collect_match m n c fl" by simp
  ultimately show ?thesis using ch by blast
qed

text \<open>The memory after the allocation of a result array of \<open>n\<close> pointers.\<close>

lemma Match_found:
  fixes n :: ulong
  assumes rep: "represents t m sh"
    and h: "unat (hash_function t pattern (number_of_total_buckets t)) = i"
    and i: "i < length sh"
    and some: "first_match (search_function t) pattern (contents m sh ! i) = Some e"
    and ok: "calloc_ok m (calloc_calls m)"
    and room: "live_bytes m + unat n * sizeof_pointer < 2 ^ 64"
    and n: "n \<noteq> 0"
  shows "Hash_Table_Match t m pattern 0 n =
    Some (Inr (Some (result_array (unat n) (collected (unat n) e)),
      of_nat (min (unat n) (Suc (length (snd e)))),
      m\<lparr>next_addr := Suc (next_addr m), live_bytes := live_bytes m + unat n * sizeof_pointer,
        calloc_calls := Suc (calloc_calls m)\<rparr>))"
proof -
  from Match_some [OF rep h i some, of 0 n]
  obtain f ds where f: "fill_object f = fst e"
    and ch: "chain (dup_next m) (first_duplicate f) ds None"
    and ds: "snd e = map (\<lambda>d. the (dup_obj m d)) ds"
    and run: "Hash_Table_Match t m pattern 0 n = collect_match m n 0 f" by blast
  have e: "(fill_object f, map (\<lambda>d. the (dup_obj m d)) ds) = e"
    using f ds by (cases e) simp
  from collect_match_found [OF ch ok room n] run e ds show ?thesis by simp
qed

lemma Match_found_no_array:
  fixes n :: ulong
  assumes rep: "represents t m sh"
    and h: "unat (hash_function t pattern (number_of_total_buckets t)) = i"
    and i: "i < length sh"
    and some: "first_match (search_function t) pattern (contents m sh ! i) = Some e"
    and fail: "\<not> (calloc_ok m (calloc_calls m) \<and> live_bytes m + unat n * sizeof_pointer < 2 ^ 64)"
  shows "Hash_Table_Match t m pattern c n =
    Some (Inr (None, c, m\<lparr>calloc_calls := Suc (calloc_calls m)\<rparr>))"
proof -
  from Match_some [OF rep h i some, of c n]
  obtain f where "Hash_Table_Match t m pattern c n = collect_match m n c f" by blast
  with collect_match_fail [OF fail] show ?thesis by simp
qed

lemma Match_cap_zero:
  assumes rep: "represents t m sh"
    and h: "unat (hash_function t pattern (number_of_total_buckets t)) = i"
    and i: "i < length sh"
    and some: "first_match (search_function t) pattern (contents m sh ! i) = Some e"
    and ok: "calloc_ok m (calloc_calls m)" "live_bytes m < 2 ^ 64"
  shows "Hash_Table_Match t m pattern c 0 = Some (Inl RecordIndexOutOfBounds)"
proof -
  from Match_some [OF rep h i some, of c 0]
  obtain f where "Hash_Table_Match t m pattern c 0 = collect_match m 0 c f" by blast
  with collect_match_zero [OF ok] show ?thesis by simp
qed

subsection \<open>Faults of the loops\<close>

lemma collect_duplicates_fault:
  assumes "collect_duplicates m n p arr c = Some y"
  shows "y \<noteq> Inl BucketIndexOutOfBounds"
proof (rule collect_duplicates.raw_induct [where P = "\<lambda>m n p arr c y.
    y \<noteq> Inl BucketIndexOutOfBounds", OF _ assms], goal_cases)
  case (1 loop m n p arr c y)
  then show ?case by (auto split: option.splits if_splits)
qed

lemma collect_match_fault:
  "collect_match m n c f \<noteq> Some (Inl BucketIndexOutOfBounds)"
proof
  assume a: "collect_match m n c f = Some (Inl BucketIndexOutOfBounds)"
  show False
  proof (cases "calloc (unat n) sizeof_pointer m")
    case (Pair p m1)
    show ?thesis
    proof (cases p)
      case None
      with a Pair show ?thesis by (simp add: collect_match_def)
    next
      case (Some r)
      show ?thesis
      proof (cases "collect_duplicates m1 n (first_duplicate f)
          ((replicate (unat n) None)[0 := Some (fill_object f)]) (c + 1)")
        case None
        with a Pair Some show ?thesis by (simp add: collect_match_def split: if_splits)
      next
        case (Some y)
        from collect_duplicates_fault [OF this] a Pair \<open>p = Some r\<close> Some show ?thesis
          by (cases y) (auto simp: collect_match_def split: if_splits)
      qed
    qed
  qed
qed

lemma match_loop_fault:
  assumes "match_loop t m pattern c n cur = Some y"
  shows "y \<noteq> Inl BucketIndexOutOfBounds"
proof (rule match_loop.raw_induct [where P = "\<lambda>t m pattern c n cur y.
    y \<noteq> Inl BucketIndexOutOfBounds", OF _ assms], goal_cases)
  case (1 loop t m pattern c n cur y)
  show ?case
  proof (cases cur)
    case None
    with 1(2) show ?thesis by auto
  next
    case (Some a)
    show ?thesis
    proof (cases "fill_mem m a")
      case None
      with Some 1(2) show ?thesis by auto
    next
      case (Some f)
      with \<open>cur = Some a\<close> 1 collect_match_fault [of m n c f] show ?thesis
        by (auto split: if_splits)
    qed
  qed
qed

lemma add_duplicate_fault:
  "add_duplicate t m obj cur f prev \<noteq> Some (Inl BucketIndexOutOfBounds)"
  by (auto simp: add_duplicate_def Let_def split: prod.splits option.splits)

lemma place_fill_fault:
  "place_fill t m obj b cur prev \<noteq> Some (Inl BucketIndexOutOfBounds)"
  by (auto simp: place_fill_def Let_def split: prod.splits option.splits)

lemma insert_loop_fault:
  assumes "insert_loop t m obj cur prev = Some y"
  shows "y \<noteq> Inl BucketIndexOutOfBounds"
proof (rule insert_loop.raw_induct [where P = "\<lambda>t m obj cur prev y.
    y \<noteq> Inl BucketIndexOutOfBounds", OF _ assms], goal_cases)
  case (1 loop t m obj cur prev y)
  show ?case
  proof (cases cur)
    case None
    with 1(2) show ?thesis by auto
  next
    case (Some a)
    show ?thesis
    proof (cases "fill_mem m a")
      case None
      with Some 1(2) show ?thesis by auto
    next
      case (Some f)
      with \<open>cur = Some a\<close> 1 add_duplicate_fault [of t m obj a f prev] show ?thesis
        by (auto split: if_splits)
    qed
  qed
qed

lemma Insert_fault:
  assumes "unat (hash_function t pattern (number_of_total_buckets t)) < length (buckets t)"
  shows "Hash_Table_Insert t m obj pattern \<noteq> Some (Inl BucketIndexOutOfBounds)"
proof
  assume a: "Hash_Table_Insert t m obj pattern = Some (Inl BucketIndexOutOfBounds)"
  let ?i = "unat (hash_function t pattern (number_of_total_buckets t))"
  show False
  proof (cases "buckets t ! ?i")
    case None
    with a assms show ?thesis
      by (auto simp: Hash_Table_Insert_def Let_def split: prod.splits option.splits)
  next
    case (Some b)
    show ?thesis
    proof (cases "bucket_mem m b")
      case None
      with a assms Some show ?thesis by (simp add: Hash_Table_Insert_def)
    next
      case (Some bk)
      show ?thesis
      proof (cases "insert_loop t m obj (first_fill bk) None")
        case None
        with a assms \<open>buckets t ! ?i = Some b\<close> Some show ?thesis
          by (simp add: Hash_Table_Insert_def)
      next
        case (Some y)
        note nf = insert_loop_fault [OF this]
        show ?thesis
        proof (cases y)
          case (Inl e)
          with nf a assms \<open>buckets t ! ?i = Some b\<close> \<open>bucket_mem m b = Some bk\<close> Some
          show ?thesis by (simp add: Hash_Table_Insert_def)
        next
          case (Inr r)
          show ?thesis
          proof (cases r)
            case (Return0 m1)
            with Inr a assms \<open>buckets t ! ?i = Some b\<close> \<open>bucket_mem m b = Some bk\<close> Some
            show ?thesis by (simp add: Hash_Table_Insert_def)
          next
            case (LoopDone placed c p t1 m1)
            with Inr a assms \<open>buckets t ! ?i = Some b\<close> \<open>bucket_mem m b = Some bk\<close> Some
              place_fill_fault [of t1 m1 obj b c p]
            show ?thesis by (simp add: Hash_Table_Insert_def split: if_splits)
          qed
        qed
      qed
    qed
  qed
qed

lemma Match_fault:
  assumes "unat (hash_function t pattern (number_of_total_buckets t)) < length (buckets t)"
  shows "Hash_Table_Match t m pattern c n \<noteq> Some (Inl BucketIndexOutOfBounds)"
proof
  assume a: "Hash_Table_Match t m pattern c n = Some (Inl BucketIndexOutOfBounds)"
  let ?i = "unat (hash_function t pattern (number_of_total_buckets t))"
  show False
  proof (cases "buckets t ! ?i")
    case None
    with a assms show ?thesis by (simp add: Hash_Table_Match_def)
  next
    case (Some b)
    show ?thesis
    proof (cases "bucket_mem m b")
      case None
      with a assms Some show ?thesis by (simp add: Hash_Table_Match_def)
    next
      case (Some bk)
      with a assms \<open>buckets t ! ?i = Some b\<close>
      have "match_loop t m pattern c n (first_fill bk) = Some (Inl BucketIndexOutOfBounds)"
        by (simp add: Hash_Table_Match_def)
      from match_loop_fault [OF this] show ?thesis by simp
    qed
  qed
qed

subsection \<open>Ascending chains and the numbers of entries\<close>

lemma ascending_pair:
  assumes "consistent_total_order cmp" "cmp x y < 0"
  shows "cmp x y \<le> 0 \<and> cmp x y \<noteq> 0 \<and> cmp y x \<noteq> 0"
proof -
  from assms have "0 < cmp y x" by (simp add: consistent_total_order_def)
  with assms(2) show ?thesis by simp
qed

lemma strictly_ordered_ascending:
  assumes ord: "consistent_total_order cmp" and so: "strictly_ordered cmp c"
  shows "ascending cmp c"
proof (cases c)
  case None
  then show ?thesis by (simp add: ascending_def)
next
  case (Some es)
  with so have "sorted_wrt (\<lambda>x y. cmp x y < 0) (map fst es)"
    by (simp add: strictly_ordered_def)
  then have "sorted_wrt (\<lambda>x y. cmp x y \<le> 0 \<and> cmp x y \<noteq> 0 \<and> cmp y x \<noteq> 0) (map fst es)"
    by (rule sorted_wrt_mono_rel [rotated]) (rule ascending_pair [OF ord])
  with Some show ?thesis by (simp add: ascending_def)
qed

lemma chains_ordered_ascending:
  assumes "consistent_total_order (compare_function t)" "chains_ordered t m sh"
  shows "list_all (ascending (compare_function t)) (contents m sh)"
proof -
  have "ascending (compare_function t) c" if "strictly_ordered (compare_function t) c" for c
    using assms(1) that by (rule strictly_ordered_ascending)
  with assms(2) show ?thesis by (simp add: chains_ordered_def list_all_iff)
qed

lemma count_slot_buckets:
  "length (concat (map slot_buckets sh)) =
   filled_slots (map (slot_contents fo dob) sh)"
proof (induction sh)
  case Nil
  then show ?case by (simp add: filled_slots_def)
next
  case (Cons s sh)
  then show ?case by (cases s) (auto simp: filled_slots_def)
qed

lemma count_slot_fills:
  "length (concat (map slot_fills sh)) =
   fill_entries (map (slot_contents fo dob) sh)"
proof (induction sh)
  case Nil
  then show ?case by (simp add: fill_entries_def)
next
  case (Cons s sh)
  then show ?case by (cases s) (auto simp: fill_entries_def)
qed

lemma count_entry_dups:
  "sum_list (map (\<lambda>e. length (snd e))
     (map (\<lambda>(f, ds). (the (fo f), map (\<lambda>d. the (dob d)) ds)) fds)) =
   length (concat (map snd fds))"
  by (induction fds) auto

lemma count_slot_dups:
  "length (concat (map slot_dups sh)) =
   duplicate_entries (map (slot_contents fo dob) sh)"
proof (induction sh)
  case Nil
  then show ?case by (simp add: duplicate_entries_def)
next
  case (Cons s sh)
  show ?case
  proof (cases s)
    case None
    with Cons show ?thesis by (simp add: duplicate_entries_def)
  next
    case (Some a)
    obtain b fds where a: "a = (b, fds)" by (cases a)
    from Cons Some a count_entry_dups [of fo dob fds] show ?thesis
      by (simp add: duplicate_entries_def del: map_map)
  qed
qed

lemma Init_state:
  assumes init: "Hash_Table_Init n hash_fun compare_fun search_fun free_fun m0 = (Some t0, m1)"
  shows "well_formed t0 m1 (replicate (unat n) None)"
    and "chains_ordered t0 m1 (replicate (unat n) None)"
    and "(\<forall>pattern. hash_fun pattern n < n) \<Longrightarrow> hash_in_bounds t0"
    and "compare_function t0 = compare_fun"
    and "number_of_total_buckets t0 = n"
proof -
  show "well_formed t0 m1 (replicate (unat n) None)" by (rule Init_well_formed(1) [OF init])
  show "chains_ordered t0 m1 (replicate (unat n) None)"
    by (simp add: chains_ordered_def contents_def strictly_ordered_def list_all_iff)
  show "compare_function t0 = compare_fun" by (rule Init_well_formed(8) [OF init])
  show "number_of_total_buckets t0 = n" by (rule Init_well_formed(3) [OF init])
  show "hash_in_bounds t0" if "\<forall>pattern. hash_fun pattern n < n"
    using that Init_well_formed(3,7) [OF init] by (simp add: hash_in_bounds_def)
qed

lemma accounted_counts:
  assumes "accounted t m sh"
  shows "unat (number_of_buckets_filled t) = filled_slots (contents m sh)"
    and "unat (number_of_buckets_filled t) + unat (number_of_collisions t) =
      fill_entries (contents m sh)"
    and "unat (number_of_duplicates t) = duplicate_entries (contents m sh)"
  using assms
  by (simp_all add: accounted_def contents_def count_slot_buckets [symmetric]
      count_slot_fills [symmetric] count_slot_dups [symmetric])

lemma safe_inserts: "list_all safe_op (map (\<lambda>(obj, pattern). Op_Insert obj pattern) inserts)"
  by (induction inserts) auto

subsection \<open>The contents that a walk reads\<close>

lemma holds_contents:
  assumes "represents t m sh" "table_holds t m A"
  shows "A = contents m sh"
  using assms(2) represents_table_holds [OF assms(1)] by (rule table_holds_unique)

subsection \<open>The lookup capped at one record\<close>

lemma result_array_one: "result_array (Suc 0) (collected (Suc 0) e) = [Some (fst e)]"
  by (simp add: result_array_def collected_def)

text \<open>
  The lookup that \<^verbatim>\<open>Hash_Table_First_Match\<close> and \<^verbatim>\<open>Hash_Table_Insert_No_Duplicate\<close>
  make: cap 1, counter 0. It hands back nothing, with the counter at 0 and all nodes and
  live bytes as before, or an array with the representative of the first matching entry,
  with the counter at 1.
\<close>

lemma Match_capped_at_one:
  assumes rep: "represents t m sh"
    and h: "unat (hash_function t pattern (number_of_total_buckets t)) = i"
    and i: "i < length sh"
  shows "\<exists>recs c m1. Hash_Table_Match t m pattern 0 1 = Some (Inr (recs, c, m1)) \<and>
    nodes_kept m m1 \<and>
    (recs = None) =
      (first_match (search_function t) pattern (contents m sh ! i) = None \<or>
       \<not> (calloc_ok m (calloc_calls m) \<and> live_bytes m + sizeof_pointer < 2 ^ 64)) \<and>
    (case recs of
       None \<Rightarrow> c = 0 \<and> live_bytes m1 = live_bytes m
     | Some arr \<Rightarrow>
         c = 1 \<and> live_bytes m1 = live_bytes m + sizeof_pointer \<and>
         (\<exists>e. first_match (search_function t) pattern (contents m sh ! i) = Some e \<and>
              arr = [Some (fst e)]))"
proof (cases "first_match (search_function t) pattern (contents m sh ! i)")
  case None
  from Match_none [OF rep h i None, of 0 1] None show ?thesis
    by (simp add: nodes_kept_def)
next
  case (Some e)
  show ?thesis
  proof (cases "calloc_ok m (calloc_calls m) \<and> live_bytes m + sizeof_pointer < 2 ^ 64")
    case True
    then have ok: "calloc_ok m (calloc_calls m)"
      and room: "live_bytes m + unat (1 :: ulong) * sizeof_pointer < 2 ^ 64" by simp_all
    from Match_found [OF rep h i Some ok room] Some True show ?thesis
      by (simp add: nodes_kept_def result_array_one)
  next
    case False
    then have "\<not> (calloc_ok m (calloc_calls m) \<and>
      live_bytes m + unat (1 :: ulong) * sizeof_pointer < 2 ^ 64)" by simp
    from Match_found_no_array [OF rep h i Some this, of 0] Some False show ?thesis
      by (simp add: nodes_kept_def)
  qed
qed

subsection \<open>A table whose nodes are kept\<close>

lemma represents_kept:
  assumes "represents t m sh" "nodes_kept m m'"
  shows "represents t m' sh"
  using assms by (intro represents_frame [of t m sh m' t]) (simp_all add: nodes_kept_def)

lemma table_holds_kept:
  assumes rep: "represents t m sh" and holds: "table_holds t m A" and kept: "nodes_kept m m'"
  shows "table_holds t m' A"
proof -
  from kept have "contents m' sh = contents m sh"
    by (intro contents_frame [OF rep]) (simp_all add: nodes_kept_def fill_obj_def dup_obj_def)
  with represents_table_holds [OF represents_kept [OF rep kept]] holds_contents [OF rep holds]
  show ?thesis by simp
qed

text \<open>
  \<^verbatim>\<open>Hash_Table_Insert_No_Duplicate\<close> on a well-formed table, by the counter \<open>c\<close> that its
  lookup with a cap of one record leaves. The counter is 0 when no entry of the hashed
  bucket matches, and also when an entry matches but the array of the lookup cannot be
  allocated; the call then goes on to \<^verbatim>\<open>Hash_Table_Insert\<close>. Otherwise the call returns 0,
  hands back the representative of the first matching entry and changes nothing.
\<close>

lemma Insert_No_Duplicate_represented:
  assumes rep: "represents table m sh"
    and holds: "table_holds table m A"
    and h: "unat (hash_function table pattern (number_of_total_buckets table)) = i"
    and i: "i < length (buckets table)"
  shows "\<exists>recs c m1.
    Hash_Table_Match table m pattern 0 1 = Some (Inr (recs, c, m1)) \<and>
    (c = 0) =
      (first_match (search_function table) pattern (A ! i) = None \<or>
       \<not> (calloc_ok m (calloc_calls m) \<and> live_bytes m + sizeof_pointer < 2 ^ 64)) \<and>
    (if c = 0
     then \<exists>r table' m'.
            Hash_Table_Insert table m1 obj pattern = Some (Inr (r, table', m')) \<and>
            (r = 0 \<or> r = 1) \<and>
            Hash_Table_Insert_No_Duplicate table m obj pattern found_duplicate =
              Some (Inr (if r = 1 then 1 else - 1, found_duplicate, table', m'))
     else \<exists>e m'.
            first_match (search_function table) pattern (A ! i) = Some e \<and>
            Hash_Table_Insert_No_Duplicate table m obj pattern found_duplicate =
              Some (Inr (0, Some (fst e), table, m')) \<and>
            bucket_mem m' = bucket_mem m \<and> fill_mem m' = fill_mem m \<and>
            dup_mem m' = dup_mem m \<and> live_bytes m' = live_bytes m \<and>
            table_holds table m' A)"
proof -
  from i have i': "i < length sh" by (simp add: represents_length [OF rep])
  note A = holds_contents [OF rep holds]
  from Match_capped_at_one [OF rep h i']
  obtain recs c m1 where run: "Hash_Table_Match table m pattern 0 1 = Some (Inr (recs, c, m1))"
    and kept: "nodes_kept m m1"
    and none: "(recs = None) =
      (first_match (search_function table) pattern (contents m sh ! i) = None \<or>
       \<not> (calloc_ok m (calloc_calls m) \<and> live_bytes m + sizeof_pointer < 2 ^ 64))"
    and res: "(case recs of
       None \<Rightarrow> c = 0 \<and> live_bytes m1 = live_bytes m
     | Some arr \<Rightarrow>
         c = 1 \<and> live_bytes m1 = live_bytes m + sizeof_pointer \<and>
         (\<exists>e. first_match (search_function table) pattern (contents m sh ! i) = Some e \<and>
              arr = [Some (fst e)]))"
    by blast
  show ?thesis
  proof (cases recs)
    case None
    with res have c: "c = 0" by simp
    from Insert_represented [OF represents_kept [OF rep kept] h i', of obj]
    obtain r table' m' where
      ins: "Hash_Table_Insert table m1 obj pattern = Some (Inr (r, table', m'))"
      and r: "r = 0 \<or> r = 1" by blast
    from run c ins r
    have "Hash_Table_Insert_No_Duplicate table m obj pattern found_duplicate =
      Some (Inr (if r = 1 then 1 else - 1, found_duplicate, table', m'))"
      by (auto simp: Hash_Table_Insert_No_Duplicate_def)
    with run c ins r none None A show ?thesis by auto
  next
    case (Some arr)
    with res obtain e where
      e: "first_match (search_function table) pattern (contents m sh ! i) = Some e"
      and arr: "arr = [Some (fst e)]" and c: "c = 1"
      and live: "live_bytes m1 = live_bytes m + sizeof_pointer" by auto
    let ?m' = "free (sizeof_pointer * Suc 0) m1"
    from run Some arr c
    have ind: "Hash_Table_Insert_No_Duplicate table m obj pattern found_duplicate =
      Some (Inr (0, Some (fst e), table, ?m'))"
      by (simp add: Hash_Table_Insert_No_Duplicate_def)
    from kept have kept': "nodes_kept m ?m'" by (simp add: nodes_kept_def free_def)
    then have nodes: "bucket_mem ?m' = bucket_mem m" "fill_mem ?m' = fill_mem m"
      "dup_mem ?m' = dup_mem m" by (simp_all add: nodes_kept_def)
    from live have lb: "live_bytes ?m' = live_bytes m" by (simp add: free_def)
    note th = table_holds_kept [OF rep holds kept']
    from none Some c have cz: "(c = 0) =
      (first_match (search_function table) pattern (contents m sh ! i) = None \<or>
       \<not> (calloc_ok m (calloc_calls m) \<and> live_bytes m + sizeof_pointer < 2 ^ 64))"
      by simp
    have "\<exists>e m'.
            first_match (search_function table) pattern (A ! i) = Some e \<and>
            Hash_Table_Insert_No_Duplicate table m obj pattern found_duplicate =
              Some (Inr (0, Some (fst e), table, m')) \<and>
            bucket_mem m' = bucket_mem m \<and> fill_mem m' = fill_mem m \<and>
            dup_mem m' = dup_mem m \<and> live_bytes m' = live_bytes m \<and>
            table_holds table m' A"
      using e ind nodes lb th A by blast
    with run cz c A show ?thesis by simp
  qed
qed

subsection \<open>Evaluating the operations on examples\<close>

lemmas sizes = sizeof_hash_table_t_def sizeof_pointer_def sizeof_hash_table_bucket_t_def
  sizeof_hash_table_fill_t_def sizeof_hash_table_duplicate_t_def

lemmas example_defs = example_table_def empty_memory_def example_hash_def
  example_compare_def example_search_def key_of_def

lemmas insert_defs = Hash_Table_Insert_def insert_loop.simps add_duplicate_def place_fill_def
  calloc_def free_def

lemmas match_defs = Hash_Table_Match_def match_loop.simps collect_match_def
  collect_duplicates.simps calloc_def free_def

lemma replicate_four: "replicate 4 x = [x, x, x, x]"
  by (simp add: eval_nat_numeral)

lemma Init_evaluated:
  "Hash_Table_Init 4 example_hash example_compare example_search None (empty_memory []) =
     (Some example_table,
      (empty_memory [])\<lparr>next_addr := 2, live_bytes := 104, calloc_calls := 2\<rparr>)"
  by (simp add: Hash_Table_Init_def calloc_def sizes example_table_def empty_memory_def
      replicate_four)

lemma example_order: "consistent_total_order example_compare"
  by (auto simp: consistent_total_order_def example_compare_def)

lemma example_hash_bound: "example_hash pattern 4 < 4"
  by (simp add: example_hash_def word_mod_less_divisor)

lemma replicate_two: "replicate 2 x = [x, x]"
  by (simp add: numeral_2_eq_2)

section \<open>The claims of the specification\<close>

text \<open>
  C1. From a table that \<^verbatim>\<open>Hash_Table_Init\<close> has built with a compare strategy that is a
  consistent total order and a hash strategy that stays below the bucket count, every
  sequence of insertions returns, whatever allocations fail on the way, and in the table
  it leaves every bucket's chain, walked from \<^verbatim>\<open>first_fill\<close> along \<^verbatim>\<open>next_fill\<close>, is
  ascending: of any two fill entries the earlier one is not after the later one, and no
  two of them compare equal.
\<close>

theorem Insert_keeps_chains_ascending:
  assumes init: "Hash_Table_Init n hash_fun compare_fun search_fun free_fun m0 =
      (Some table0, m1)"
    and ord: "consistent_total_order compare_fun"
    and hash: "\<forall>pattern. hash_fun pattern n < n"
  shows "\<exists>table m A.
    run table0 m1 (map (\<lambda>(obj, pattern). Op_Insert obj pattern) inserts) =
      Some (Inr (table, m)) \<and>
    table_holds table m A \<and> list_all (ascending compare_fun) A"
proof -
  note wf0 = Init_state(1) [OF init]
  from run_returns [OF wf0 Init_state(3) [OF init hash] safe_inserts]
  obtain table m where
    run: "run table0 m1 (map (\<lambda>(obj, pattern). Op_Insert obj pattern) inserts) =
      Some (Inr (table, m))" by blast
  from run_well_formed [OF wf0 run]
  obtain sh where kg: "kept_or_grown table0 m1 (replicate (unat n) None) table m sh" by blast
  from kg ord Init_state(2,4) [OF init]
  have co: "chains_ordered table m sh" and cmp: "compare_function table = compare_fun"
    and rep: "represents table m sh"
    by (simp_all add: kept_or_grown_def same_strategies_def well_formed_def)
  from chains_ordered_ascending [OF _ co] ord cmp
  have "list_all (ascending compare_fun) (contents m sh)" by simp
  with run represents_table_holds [OF rep] show ?thesis by blast
qed

text \<open>
  The witness: four insertions into one bucket, out of order and with two equal keys,
  where the allocation for the second one fails.
\<close>

theorem Insert_keeps_chains_ascending_witness:
  "consistent_total_order example_compare \<and> (\<forall>pattern. example_hash pattern 4 < 4) \<and>
   (\<exists>table0 m1 table m.
     Hash_Table_Init 4 example_hash example_compare example_search None (empty_memory [4]) =
       (Some table0, m1) \<and>
     run table0 m1 (map (\<lambda>(obj, pattern). Op_Insert obj pattern)
       [((314, 1), ''dog''), ((312, 2), ''cat''), ((312, 3), ''act''), ((314, 4), ''god'')]) =
       Some (Inr (table, m)) \<and>
     table_holds table m [None, None, None, Some [((312, 3), []), ((314, 1), [(314, 4)])]] \<and>
     list_all (ascending example_compare)
       [None, None, None, Some [((312, 3), []), ((314, 1), [(314, 4)])]])"
proof -
  have init: "Hash_Table_Init 4 example_hash example_compare example_search None
      (empty_memory [4]) =
    (Some example_table,
     (empty_memory [4])\<lparr>next_addr := 2, live_bytes := 104, calloc_calls := 2\<rparr>)"
    by (simp add: Hash_Table_Init_def calloc_def sizes example_table_def empty_memory_def
        replicate_four)
  have hash: "\<forall>pattern. example_hash pattern 4 < 4" by (simp add: example_hash_bound)
  from Insert_keeps_chains_ascending [OF init example_order hash]
  obtain table m A where
    run: "run example_table
       ((empty_memory [4])\<lparr>next_addr := 2, live_bytes := 104, calloc_calls := 2\<rparr>)
       (map (\<lambda>(obj, pattern). Op_Insert obj pattern)
       [((314, 1), ''dog''), ((312, 2), ''cat''), ((312, 3), ''act''), ((314, 4), ''god'')]) =
       Some (Inr (table, m))"
    and holds: "table_holds table m A"
    and asc: "list_all (ascending example_compare) A" by blast
  have "\<exists>table m. run example_table
       ((empty_memory [4])\<lparr>next_addr := 2, live_bytes := 104, calloc_calls := 2\<rparr>)
       (map (\<lambda>(obj, pattern). Op_Insert obj pattern)
       [((314, 1), ''dog''), ((312, 2), ''cat''), ((312, 3), ''act''), ((314, 4), ''god'')]) =
       Some (Inr (table, m)) \<and>
     table_holds table m [None, None, None, Some [((312, 3), []), ((314, 1), [(314, 4)])]]"
    by (simp add: insert_defs sizes example_defs table_holds_def slot_holds_def)
  with run have "table_holds table m
      [None, None, None, Some [((312, 3), []), ((314, 1), [(314, 4)])]]" by auto
  from table_holds_unique [OF holds this] asc
  have "list_all (ascending example_compare)
       [None, None, None, Some [((312, 3), []), ((314, 1), [(314, 4)])]]" by simp
  with init run \<open>table_holds table m
      [None, None, None, Some [((312, 3), []), ((314, 1), [(314, 4)])]]\<close>
    example_order hash
  show ?thesis by blast
qed

text \<open>
  C2. On a well-formed table, let \<open>e\<close> be the first fill entry of the hashed bucket that the
  search strategy accepts: its representative and its duplicates, which insertions have
  appended in their order. When the result array can be allocated, a lookup entered with
  the counter at 0 and a cap \<open>n\<close> of at least 1 hands back the array of \<open>n\<close> pointers that
  starts with the first \<open>min n (1 + length duplicates)\<close> objects of \<open>e\<close>, the representative
  first, followed by null pointers, and the counter holds that number. With the cap 0 the
  claim wants no object; the code stores the representative at index 0 of an array
  without entries (line 359), which is outside of the array.
\<close>

theorem Match_collects_or_overruns:
  fixes n :: ulong
  assumes rep: "represents table m sh"
    and holds: "table_holds table m A"
    and h: "unat (hash_function table pattern (number_of_total_buckets table)) = i"
    and i: "i < length (buckets table)"
    and found: "first_match (search_function table) pattern (A ! i) = Some e"
    and ok: "calloc_ok m (calloc_calls m)"
    and room: "live_bytes m + unat n * sizeof_pointer < 2 ^ 64"
  shows "Hash_Table_Match table m pattern 0 n =
    (if n = 0 then Some (Inl RecordIndexOutOfBounds)
     else Some (Inr (Some (result_array (unat n) (collected (unat n) e)),
       of_nat (min (unat n) (1 + length (snd e))),
       m\<lparr>next_addr := Suc (next_addr m),
         live_bytes := live_bytes m + unat n * sizeof_pointer,
         calloc_calls := Suc (calloc_calls m)\<rparr>)))"
proof -
  from i have i': "i < length sh" by (simp add: represents_length [OF rep])
  from found holds_contents [OF rep holds]
  have found': "first_match (search_function table) pattern (contents m sh ! i) = Some e"
    by simp
  show ?thesis
  proof (cases "n = 0")
    case True
    with room have "live_bytes m < 2 ^ 64" by simp
    from Match_cap_zero [OF rep h i' found' ok this] True show ?thesis by simp
  next
    case False
    from Match_found [OF rep h i' found' ok room False] False show ?thesis by simp
  qed
qed

text \<open>
  The witness: \<open>(312, 1)\<close> is inserted and then two objects that compare equal to it. The
  lookup of \<open>cat\<close> with the cap 2 hands back the representative and the first duplicate,
  with the cap 5 all three objects, and with the cap 0 it leaves the array.
\<close>

theorem Match_collects_or_overruns_witness:
  "\<exists>table0 m1 table m m2 m5.
     Hash_Table_Init 4 example_hash example_compare example_search None (empty_memory []) =
       (Some table0, m1) \<and>
     run table0 m1
       [Op_Insert (312, 1) ''cat'', Op_Insert (312, 2) ''act'', Op_Insert (312, 3) ''tac''] =
       Some (Inr (table, m)) \<and>
     table_holds table m [None, None, None, Some [((312, 1), [(312, 2), (312, 3)])]] \<and>
     calloc_ok m (calloc_calls m) \<and>
     Hash_Table_Match table m ''cat'' 0 2 =
       Some (Inr (Some [Some (312, 1), Some (312, 2)], 2, m2)) \<and>
     Hash_Table_Match table m ''cat'' 0 5 =
       Some (Inr (Some [Some (312, 1), Some (312, 2), Some (312, 3), None, None], 3, m5)) \<and>
     Hash_Table_Match table m ''cat'' 0 0 = Some (Inl RecordIndexOutOfBounds)"
proof -
  have "\<exists>table m. run example_table
       ((empty_memory [])\<lparr>next_addr := 2, live_bytes := 104, calloc_calls := 2\<rparr>)
       [Op_Insert (312, 1) ''cat'', Op_Insert (312, 2) ''act'', Op_Insert (312, 3) ''tac''] =
       Some (Inr (table, m)) \<and>
     table_holds table m [None, None, None, Some [((312, 1), [(312, 2), (312, 3)])]] \<and>
     unat (hash_function table ''cat'' (number_of_total_buckets table)) = 3 \<and>
     3 < length (buckets table) \<and> search_function table = example_search \<and>
     calloc_ok m (calloc_calls m) \<and> live_bytes m + 40 < 2 ^ 64"
    by (simp add: insert_defs sizes example_defs table_holds_def slot_holds_def)
  then obtain table m where
    run: "run example_table
       ((empty_memory [])\<lparr>next_addr := 2, live_bytes := 104, calloc_calls := 2\<rparr>)
       [Op_Insert (312, 1) ''cat'', Op_Insert (312, 2) ''act'', Op_Insert (312, 3) ''tac''] =
       Some (Inr (table, m))"
    and holds: "table_holds table m
      [None, None, None, Some [((312, 1), [(312, 2), (312, 3)])]]"
    and h: "unat (hash_function table ''cat'' (number_of_total_buckets table)) = 3"
    and i: "3 < length (buckets table)"
    and search: "search_function table = example_search"
    and ok: "calloc_ok m (calloc_calls m)"
    and room: "live_bytes m + 40 < 2 ^ 64"
    by blast
  from run_well_formed [OF Init_state(1) [OF Init_evaluated] run]
  obtain sh where rep: "represents table m sh"
    by (auto simp: kept_or_grown_def well_formed_def)
  have found: "first_match (search_function table) ''cat''
      ([None, None, None, Some [((312, 1), [(312, 2), (312, 3)])]] ! 3) =
    Some ((312, 1), [(312, 2), (312, 3)])"
    by (simp add: search first_match_def example_search_def key_of_def)
  from room have room2: "live_bytes m + unat (2 :: ulong) * sizeof_pointer < 2 ^ 64"
    and room5: "live_bytes m + unat (5 :: ulong) * sizeof_pointer < 2 ^ 64"
    and room0: "live_bytes m + unat (0 :: ulong) * sizeof_pointer < 2 ^ 64"
    by (simp_all add: sizeof_pointer_def)
  from Match_collects_or_overruns [OF rep holds h i found ok room2]
  have "\<exists>m2. Hash_Table_Match table m ''cat'' 0 2 =
       Some (Inr (Some [Some (312, 1), Some (312, 2)], 2, m2))"
    by (simp add: result_array_def collected_def)
  moreover from Match_collects_or_overruns [OF rep holds h i found ok room5]
  have "\<exists>m5. Hash_Table_Match table m ''cat'' 0 5 =
       Some (Inr (Some [Some (312, 1), Some (312, 2), Some (312, 3), None, None], 3, m5))"
    by (simp add: result_array_def collected_def replicate_two)
  moreover from Match_collects_or_overruns [OF rep holds h i found ok room0]
  have "Hash_Table_Match table m ''cat'' 0 0 = Some (Inl RecordIndexOutOfBounds)" by simp
  ultimately show ?thesis using Init_evaluated run holds ok by blast
qed



text \<open>
  C4. The three counters of a table that \<^verbatim>\<open>Hash_Table_Init\<close> has built are zero. After any
  sequence of operations that returned, buckets-filled plus collisions is the number of
  fill entries of the table, duplicates is the number of its duplicate entries, and
  buckets-filled is the number of its non-empty buckets. As no operation removes an
  entry, the entries of the table are the entries ever created.
\<close>

theorem counters_count_entries:
  assumes init: "Hash_Table_Init n hash_fun compare_fun search_fun free_fun m0 =
      (Some table0, m1)"
    and run: "run table0 m1 ops = Some (Inr (table, m))"
  shows "number_of_buckets_filled table0 = 0 \<and> number_of_collisions table0 = 0 \<and>
    number_of_duplicates table0 = 0 \<and>
    (\<exists>A. table_holds table m A \<and>
       unat (number_of_buckets_filled table) + unat (number_of_collisions table) =
         fill_entries A \<and>
       unat (number_of_duplicates table) = duplicate_entries A \<and>
       unat (number_of_buckets_filled table) = filled_slots A)"
proof -
  from run_well_formed [OF Init_state(1) [OF init] run]
  obtain sh where "kept_or_grown table0 m1 (replicate (unat n) None) table m sh" by blast
  then have rep: "represents table m sh" and acc: "accounted table m sh"
    by (simp_all add: kept_or_grown_def well_formed_def)
  from represents_table_holds [OF rep] accounted_counts [OF acc]
  have "\<exists>A. table_holds table m A \<and>
       unat (number_of_buckets_filled table) + unat (number_of_collisions table) =
         fill_entries A \<and>
       unat (number_of_duplicates table) = duplicate_entries A \<and>
       unat (number_of_buckets_filled table) = filled_slots A" by blast
  with Init_well_formed(4,5,6) [OF init] show ?thesis by simp
qed

text \<open>
  The witness: insertions into two buckets with a collision, two duplicates, a failed
  allocation and lookups in between.
\<close>

theorem counters_count_entries_witness:
  "\<exists>table0 m1 table m.
     Hash_Table_Init 4 example_hash example_compare example_search None (empty_memory [4]) =
       (Some table0, m1) \<and>
     run table0 m1
       [Op_Insert (314, 1) ''dog'', Op_Insert (312, 2) ''cat'', Op_Insert (312, 3) ''act'',
        Op_Match ''dog'' 0 2, Op_Insert (314, 4) ''god'', Op_Insert (434, 5) ''bird'',
        Op_Insert_No_Duplicate (312, 6) ''cat'' None, Op_Insert (314, 7) ''dog'',
        Op_First_Match ''bird''] = Some (Inr (table, m)) \<and>
     number_of_buckets_filled table0 = 0 \<and> number_of_collisions table0 = 0 \<and>
     number_of_duplicates table0 = 0 \<and>
     number_of_buckets_filled table = 2 \<and> number_of_collisions table = 1 \<and>
     number_of_duplicates table = 2 \<and>
     (\<exists>A. table_holds table m A \<and>
       unat (number_of_buckets_filled table) + unat (number_of_collisions table) =
         fill_entries A \<and>
       unat (number_of_duplicates table) = duplicate_entries A \<and>
       unat (number_of_buckets_filled table) = filled_slots A)"
proof -
  have init: "Hash_Table_Init 4 example_hash example_compare example_search None
      (empty_memory [4]) =
    (Some example_table,
     (empty_memory [4])\<lparr>next_addr := 2, live_bytes := 104, calloc_calls := 2\<rparr>)"
    by (simp add: Hash_Table_Init_def calloc_def sizes example_table_def empty_memory_def
        replicate_four)
  have "\<exists>table m. run example_table
       ((empty_memory [4])\<lparr>next_addr := 2, live_bytes := 104, calloc_calls := 2\<rparr>)
       [Op_Insert (314, 1) ''dog'', Op_Insert (312, 2) ''cat'', Op_Insert (312, 3) ''act'',
        Op_Match ''dog'' 0 2, Op_Insert (314, 4) ''god'', Op_Insert (434, 5) ''bird'',
        Op_Insert_No_Duplicate (312, 6) ''cat'' None, Op_Insert (314, 7) ''dog'',
        Op_First_Match ''bird''] = Some (Inr (table, m)) \<and>
     number_of_buckets_filled table = 2 \<and> number_of_collisions table = 1 \<and>
     number_of_duplicates table = 2"
    by (simp add: insert_defs match_defs sizes example_defs Hash_Table_Insert_No_Duplicate_def
        Hash_Table_First_Match_def)
  then obtain table m where run: "run example_table
       ((empty_memory [4])\<lparr>next_addr := 2, live_bytes := 104, calloc_calls := 2\<rparr>)
       [Op_Insert (314, 1) ''dog'', Op_Insert (312, 2) ''cat'', Op_Insert (312, 3) ''act'',
        Op_Match ''dog'' 0 2, Op_Insert (314, 4) ''god'', Op_Insert (434, 5) ''bird'',
        Op_Insert_No_Duplicate (312, 6) ''cat'' None, Op_Insert (314, 7) ''dog'',
        Op_First_Match ''bird''] = Some (Inr (table, m))"
    and counters: "number_of_buckets_filled table = 2" "number_of_collisions table = 1"
      "number_of_duplicates table = 2" by blast
  from counters_count_entries [OF init run] init run counters show ?thesis by blast
qed

text \<open>
  C5. The claim wants a call that finds a match to return 0 and to leave the table
  unchanged. \<^verbatim>\<open>Hash_Table_Insert_No_Duplicate\<close> takes the counter of its lookup for the
  answer (line 236), and \<^verbatim>\<open>Hash_Table_Match\<close> leaves the counter at 0 also when an entry
  matches but the result array cannot be allocated (lines 353-357). With \<open>(312, 1)\<close> in
  the table under \<open>cat\<close> and the allocation of the lookup failing, the call for \<open>(312, 2)\<close>
  under \<open>cat\<close> does not return 0 or -1: it inserts the object as a duplicate and returns 1.
\<close>

theorem Insert_No_Duplicate_inserts_despite_match:
  "\<exists>table0 m1 table m m2 table' m'.
     Hash_Table_Init 4 example_hash example_compare example_search None (empty_memory [4]) =
       (Some table0, m1) \<and>
     run table0 m1 [Op_Insert (312, 1) ''cat''] = Some (Inr (table, m)) \<and>
     table_holds table m [None, None, None, Some [((312, 1), [])]] \<and>
     first_match (search_function table) ''cat'' (Some [((312, 1), [])]) =
       Some ((312, 1), []) \<and>
     Hash_Table_Match table m ''cat'' 0 1 = Some (Inr (None, 0, m2)) \<and>
     Hash_Table_Insert_No_Duplicate table m (312, 2) ''cat'' None =
       Some (Inr (1, None, table', m')) \<and>
     table_holds table' m' [None, None, None, Some [((312, 1), [(312, 2)])]] \<and>
     number_of_duplicates table = 0 \<and> number_of_duplicates table' = 1"
proof -
  have init: "Hash_Table_Init 4 example_hash example_compare example_search None
      (empty_memory [4]) =
    (Some example_table,
     (empty_memory [4])\<lparr>next_addr := 2, live_bytes := 104, calloc_calls := 2\<rparr>)"
    by (simp add: Hash_Table_Init_def calloc_def sizes example_table_def empty_memory_def
        replicate_four)
  have "\<exists>table m m2 table' m'.
     run example_table
       ((empty_memory [4])\<lparr>next_addr := 2, live_bytes := 104, calloc_calls := 2\<rparr>)
       [Op_Insert (312, 1) ''cat''] = Some (Inr (table, m)) \<and>
     table_holds table m [None, None, None, Some [((312, 1), [])]] \<and>
     first_match (search_function table) ''cat'' (Some [((312, 1), [])]) =
       Some ((312, 1), []) \<and>
     Hash_Table_Match table m ''cat'' 0 1 = Some (Inr (None, 0, m2)) \<and>
     Hash_Table_Insert_No_Duplicate table m (312, 2) ''cat'' None =
       Some (Inr (1, None, table', m')) \<and>
     table_holds table' m' [None, None, None, Some [((312, 1), [(312, 2)])]] \<and>
     number_of_duplicates table = 0 \<and> number_of_duplicates table' = 1"
    by (simp add: insert_defs match_defs sizes example_defs table_holds_def slot_holds_def
        Hash_Table_Insert_No_Duplicate_def first_match_def)
  with init show ?thesis by blast
qed

text \<open>
  C6. The claim says that some execution of \<^verbatim>\<open>Hash_Table_Insert\<close> returns the allocation
  failure result 0 after it has already modified the table. No execution does: on every
  path the one allocation that can fail after another has succeeded is the fill node of
  an empty bucket, and there the bucket node is released and nothing was linked yet.
  Whenever the call returns 0, the table record, all bucket, fill and duplicate nodes and
  the number of live bytes are what they were before the call.
\<close>

theorem Insert_failure_is_atomic:
  assumes "Hash_Table_Insert table m obj pattern = Some (Inr (0, table', m'))"
  shows "table' = table \<and> bucket_mem m' = bucket_mem m \<and> fill_mem m' = fill_mem m \<and>
         dup_mem m' = dup_mem m \<and> live_bytes m' = live_bytes m"
  using Insert_failure_unchanged [OF assms] by (simp add: nodes_kept_def)

text \<open>
  The witness: in an empty bucket the allocation of the bucket node succeeds and the
  allocation of the fill node fails.
\<close>

theorem Insert_failure_is_atomic_witness:
  "Hash_Table_Insert example_table (empty_memory [1]) (312, 1) ''cat'' =
     Some (Inr (0, example_table, (empty_memory [1])\<lparr>next_addr := 1, calloc_calls := 2\<rparr>)) \<and>
   bucket_mem ((empty_memory [1])\<lparr>next_addr := 1, calloc_calls := 2\<rparr>) =
     bucket_mem (empty_memory [1]) \<and>
   fill_mem ((empty_memory [1])\<lparr>next_addr := 1, calloc_calls := 2\<rparr>) =
     fill_mem (empty_memory [1]) \<and>
   dup_mem ((empty_memory [1])\<lparr>next_addr := 1, calloc_calls := 2\<rparr>) =
     dup_mem (empty_memory [1]) \<and>
   live_bytes ((empty_memory [1])\<lparr>next_addr := 1, calloc_calls := 2\<rparr>) =
     live_bytes (empty_memory [1])"
proof -
  have run: "Hash_Table_Insert example_table (empty_memory [1]) (312, 1) ''cat'' =
     Some (Inr (0, example_table, (empty_memory [1])\<lparr>next_addr := 1, calloc_calls := 2\<rparr>))"
    by (simp add: insert_defs sizes example_defs)
  from Insert_failure_is_atomic [OF run] run show ?thesis by simp
qed

text \<open>The claim as stated is false: there is no such execution.\<close>

theorem Insert_partial_failure_counterexample:
  "\<not> (\<exists>(table :: 'o hash_table_t) m obj pattern table' m'.
        Hash_Table_Insert table m obj pattern = Some (Inr (0, table', m')) \<and>
        (table' \<noteq> table \<or> bucket_mem m' \<noteq> bucket_mem m \<or> fill_mem m' \<noteq> fill_mem m \<or>
         dup_mem m' \<noteq> dup_mem m))"
proof
  assume "\<exists>(table :: 'o hash_table_t) m obj pattern table' m'.
        Hash_Table_Insert table m obj pattern = Some (Inr (0, table', m')) \<and>
        (table' \<noteq> table \<or> bucket_mem m' \<noteq> bucket_mem m \<or> fill_mem m' \<noteq> fill_mem m \<or>
         dup_mem m' \<noteq> dup_mem m)"
  then obtain table :: "'o hash_table_t" and m obj pattern table' m'
    where run: "Hash_Table_Insert table m obj pattern = Some (Inr (0, table', m'))"
      and changed: "table' \<noteq> table \<or> bucket_mem m' \<noteq> bucket_mem m \<or>
        fill_mem m' \<noteq> fill_mem m \<or> dup_mem m' \<noteq> dup_mem m"
    by blast
  from Insert_failure_unchanged [OF run] changed show False
    by (simp add: nodes_kept_def)
qed

text \<open>
  C7. \<^verbatim>\<open>Hash_Table_Match\<close> sets the caller's counter to zero when the hashed bucket is
  empty, but not when the bucket is non-empty and no fill node matches: that path
  (line 384) returns \<^verbatim>\<open>NULL\<close> and leaves the counter as it was. After \<open>(312, 1)\<close> was
  inserted under the pattern \<open>cat\<close>, a lookup of \<open>dog\<close> (same bucket, other key) with the
  counter at 7 returns no array and the counter still at 7.
\<close>

theorem Match_miss_keeps_counter:
  "\<exists>table m. run example_table (empty_memory []) [Op_Insert (312, 1) ''cat''] =
       Some (Inr (table, m)) \<and>
     buckets table ! unat (hash_function table ''dog'' (number_of_total_buckets table)) \<noteq> None \<and>
     Hash_Table_Match table m ''dog'' 7 1 = Some (Inr (None, 7, m))"
  by (simp add: insert_defs match_defs sizes example_defs)

text \<open>
  C8. On a well-formed table \<^verbatim>\<open>Hash_Table_First_Match\<close> is the lookup with a cap of one
  record: when \<^verbatim>\<open>Hash_Table_Match\<close> with cap 1 hands back an array, the array holds the
  representative of the first fill entry of the hashed bucket that the search strategy
  accepts, the counter is 1, and \<^verbatim>\<open>Hash_Table_First_Match\<close> returns this object and
  releases the array; when it hands back \<^verbatim>\<open>NULL\<close>, so does
  \<^verbatim>\<open>Hash_Table_First_Match\<close>. The lookup hands back \<^verbatim>\<open>NULL\<close> when no entry matches or
  when the array cannot be allocated.
\<close>

theorem First_Match_is_Match_capped_at_one:
  assumes rep: "represents table m sh"
    and holds: "table_holds table m A"
    and h: "unat (hash_function table pattern (number_of_total_buckets table)) = i"
    and i: "i < length (buckets table)"
  shows "\<exists>recs c m1.
    Hash_Table_Match table m pattern 0 1 = Some (Inr (recs, c, m1)) \<and>
    (recs = None) =
      (first_match (search_function table) pattern (A ! i) = None \<or>
       \<not> (calloc_ok m (calloc_calls m) \<and> live_bytes m + sizeof_pointer < 2 ^ 64)) \<and>
    (case recs of
       None \<Rightarrow> Hash_Table_First_Match table m pattern = Some (Inr (None, m1))
     | Some arr \<Rightarrow>
         (\<exists>e. first_match (search_function table) pattern (A ! i) = Some e \<and>
              arr = [Some (fst e)] \<and> c = 1 \<and>
              Hash_Table_First_Match table m pattern =
                Some (Inr (Some (fst e), free sizeof_pointer m1))))"
proof -
  from i have i': "i < length sh" by (simp add: represents_length [OF rep])
  note A = holds_contents [OF rep holds]
  from Match_capped_at_one [OF rep h i']
  obtain recs c m1 where run: "Hash_Table_Match table m pattern 0 1 = Some (Inr (recs, c, m1))"
    and none: "(recs = None) =
      (first_match (search_function table) pattern (contents m sh ! i) = None \<or>
       \<not> (calloc_ok m (calloc_calls m) \<and> live_bytes m + sizeof_pointer < 2 ^ 64))"
    and res: "(case recs of
       None \<Rightarrow> c = 0 \<and> live_bytes m1 = live_bytes m
     | Some arr \<Rightarrow>
         c = 1 \<and> live_bytes m1 = live_bytes m + sizeof_pointer \<and>
         (\<exists>e. first_match (search_function table) pattern (contents m sh ! i) = Some e \<and>
              arr = [Some (fst e)]))"
    by blast
  show ?thesis
  proof (cases recs)
    case None
    with run none A show ?thesis by (simp add: Hash_Table_First_Match_def)
  next
    case (Some arr)
    with res obtain e where
      e: "first_match (search_function table) pattern (contents m sh ! i) = Some e"
      and arr: "arr = [Some (fst e)]" and c: "c = 1" by auto
    from run Some arr
    have "Hash_Table_First_Match table m pattern =
      Some (Inr (Some (fst e), free sizeof_pointer m1))"
      by (simp add: Hash_Table_First_Match_def)
    with run none A Some e arr c show ?thesis by simp
  qed
qed

text \<open>
  The witness: after \<open>(312, 1)\<close> and its duplicate \<open>(312, 2)\<close> were inserted, the lookup of
  \<open>cat\<close> with cap 1 gives an array with \<open>(312, 1)\<close>, which
  \<^verbatim>\<open>Hash_Table_First_Match\<close> returns.
\<close>

theorem First_Match_is_Match_capped_at_one_witness:
  "\<exists>table0 m1 table m m2.
     Hash_Table_Init 4 example_hash example_compare example_search None (empty_memory []) =
       (Some table0, m1) \<and>
     run table0 m1 [Op_Insert (312, 1) ''cat'', Op_Insert (312, 2) ''act''] =
       Some (Inr (table, m)) \<and>
     table_holds table m [None, None, None, Some [((312, 1), [(312, 2)])]] \<and>
     Hash_Table_Match table m ''cat'' 0 1 = Some (Inr (Some [Some (312, 1)], 1, m2)) \<and>
     Hash_Table_First_Match table m ''cat'' =
       Some (Inr (Some (312, 1), free sizeof_pointer m2))"
proof -
  have "\<exists>table m m2. run example_table
       ((empty_memory [])\<lparr>next_addr := 2, live_bytes := 104, calloc_calls := 2\<rparr>)
       [Op_Insert (312, 1) ''cat'', Op_Insert (312, 2) ''act''] = Some (Inr (table, m)) \<and>
     table_holds table m [None, None, None, Some [((312, 1), [(312, 2)])]] \<and>
     unat (hash_function table ''cat'' (number_of_total_buckets table)) = 3 \<and>
     3 < length (buckets table) \<and>
     Hash_Table_Match table m ''cat'' 0 1 = Some (Inr (Some [Some (312, 1)], 1, m2))"
    by (simp add: insert_defs match_defs sizes example_defs table_holds_def slot_holds_def)
  then obtain table m m2 where
    run: "run example_table
       ((empty_memory [])\<lparr>next_addr := 2, live_bytes := 104, calloc_calls := 2\<rparr>)
       [Op_Insert (312, 1) ''cat'', Op_Insert (312, 2) ''act''] = Some (Inr (table, m))"
    and holds: "table_holds table m [None, None, None, Some [((312, 1), [(312, 2)])]]"
    and h: "unat (hash_function table ''cat'' (number_of_total_buckets table)) = 3"
    and i: "3 < length (buckets table)"
    and look: "Hash_Table_Match table m ''cat'' 0 1 =
      Some (Inr (Some [Some (312, 1)], 1, m2))"
    by blast
  from run_well_formed [OF Init_state(1) [OF Init_evaluated] run]
  obtain sh where "represents table m sh" by (auto simp: kept_or_grown_def well_formed_def)
  from First_Match_is_Match_capped_at_one [OF this holds h i] look
  have "Hash_Table_First_Match table m ''cat'' =
       Some (Inr (Some (312, 1), free sizeof_pointer m2))" by auto
  with Init_evaluated run holds look show ?thesis by blast
qed

text \<open>
  C9. From a table that \<^verbatim>\<open>Hash_Table_Init\<close> has built, after any sequence of operations
  that returned, one more operation that returns leaves \<^verbatim>\<open>Hash_Table_Size\<close> at least as
  large as it was; in particular every \<^verbatim>\<open>Hash_Table_Insert\<close> and every
  \<^verbatim>\<open>Hash_Table_Insert_No_Duplicate\<close> does. The size is computed in \<^verbatim>\<open>unsigned long\<close>
  arithmetic; it does not wrap because the nodes it counts are allocated.
\<close>

theorem Size_never_decreases:
  assumes init: "Hash_Table_Init n hash_fun compare_fun search_fun free_fun m0 =
      (Some table0, m1)"
    and before: "run table0 m1 ops = Some (Inr (table, m))"
    and after: "step table m op = Some (Inr (table', m'))"
  shows "Hash_Table_Size table \<le> Hash_Table_Size table'"
proof -
  from run_well_formed [OF Init_state(1) [OF init] before]
  obtain sh where "kept_or_grown table0 m1 (replicate (unat n) None) table m sh" by blast
  then have wf: "well_formed table m sh" by (simp add: kept_or_grown_def)
  from after have "run table m [op] = Some (Inr (table', m'))" by simp
  from run_well_formed [OF wf this]
  obtain sh' where kg: "kept_or_grown table m sh table' m' sh'" by blast
  from kg have "accounted table' m' sh'" "grown sh sh'"
    "number_of_total_buckets table' = number_of_total_buckets table"
    by (simp_all add: kept_or_grown_def well_formed_def same_strategies_def)
  moreover from wf have "accounted table m sh" by (simp add: well_formed_def)
  ultimately show ?thesis by (intro Size_grown)
qed

text \<open>
  The witness: a table of four buckets, one insertion, and then an insertion without
  duplicates of another key into the same bucket.
\<close>

theorem Size_never_decreases_witness:
  "\<exists>table0 m1 table m table' m'.
     Hash_Table_Init 4 example_hash example_compare example_search None (empty_memory []) =
       (Some table0, m1) \<and>
     run table0 m1 [Op_Insert (312, 1) ''cat''] = Some (Inr (table, m)) \<and>
     step table m (Op_Insert_No_Duplicate (314, 2) ''dog'' None) = Some (Inr (table', m')) \<and>
     Hash_Table_Size table = 152 \<and> Hash_Table_Size table' = 184 \<and>
     Hash_Table_Size table \<le> Hash_Table_Size table'"
proof -
  have "\<exists>table m table' m'.
     run example_table ((empty_memory [])\<lparr>next_addr := 2, live_bytes := 104, calloc_calls := 2\<rparr>)
       [Op_Insert (312, 1) ''cat''] = Some (Inr (table, m)) \<and>
     step table m (Op_Insert_No_Duplicate (314, 2) ''dog'' None) = Some (Inr (table', m')) \<and>
     Hash_Table_Size table = 152 \<and> Hash_Table_Size table' = 184"
    by (simp add: insert_defs match_defs sizes example_defs Hash_Table_Insert_No_Duplicate_def
        Hash_Table_Size_def)
  then obtain table m table' m' where
    before: "run example_table
       ((empty_memory [])\<lparr>next_addr := 2, live_bytes := 104, calloc_calls := 2\<rparr>)
       [Op_Insert (312, 1) ''cat''] = Some (Inr (table, m))"
    and after: "step table m (Op_Insert_No_Duplicate (314, 2) ''dog'' None) =
       Some (Inr (table', m'))"
    and sizes: "Hash_Table_Size table = 152" "Hash_Table_Size table' = 184"
    by blast
  from Size_never_decreases [OF Init_evaluated before after] Init_evaluated before after sizes
  show ?thesis by blast
qed

text \<open>
  C10. On a table whose bucket array has the length the table records, an insertion or a
  lookup indexes the array out of bounds exactly when the hash strategy returns an index
  that is not below the bucket count: under the precondition on the hash strategy the
  out-of-range branch is never taken, and without it, it is taken, as the operations
  check nothing themselves.
\<close>

theorem bucket_access_in_bounds:
  assumes "length (buckets table) = unat (number_of_total_buckets table)"
  shows "(hash_function table pattern (number_of_total_buckets table) <
            number_of_total_buckets table \<longrightarrow>
          Hash_Table_Insert table m obj pattern \<noteq> Some (Inl BucketIndexOutOfBounds) \<and>
          Hash_Table_Match table m pattern number_of_objects_found max_num_records \<noteq>
            Some (Inl BucketIndexOutOfBounds)) \<and>
         (\<not> hash_function table pattern (number_of_total_buckets table) <
            number_of_total_buckets table \<longrightarrow>
          Hash_Table_Insert table m obj pattern = Some (Inl BucketIndexOutOfBounds) \<and>
          Hash_Table_Match table m pattern number_of_objects_found max_num_records =
            Some (Inl BucketIndexOutOfBounds))"
proof (intro conjI impI)
  assume "hash_function table pattern (number_of_total_buckets table) <
    number_of_total_buckets table"
  with assms
  have i: "unat (hash_function table pattern (number_of_total_buckets table)) <
    length (buckets table)"
    by (simp add: word_less_nat_alt)
  from Insert_fault [OF i]
  show "Hash_Table_Insert table m obj pattern \<noteq> Some (Inl BucketIndexOutOfBounds)" .
  from Match_fault [OF i]
  show "Hash_Table_Match table m pattern number_of_objects_found max_num_records \<noteq>
    Some (Inl BucketIndexOutOfBounds)" .
next
  assume "\<not> hash_function table pattern (number_of_total_buckets table) <
    number_of_total_buckets table"
  with assms
  have i: "length (buckets table) \<le>
    unat (hash_function table pattern (number_of_total_buckets table))"
    by (simp add: word_less_nat_alt)
  then show "Hash_Table_Insert table m obj pattern = Some (Inl BucketIndexOutOfBounds)"
    by (simp add: Hash_Table_Insert_def)
  from i show "Hash_Table_Match table m pattern number_of_objects_found max_num_records =
    Some (Inl BucketIndexOutOfBounds)"
    by (simp add: Hash_Table_Match_def)
qed

text \<open>
  The witness: the example table hashes \<open>cat\<close> to slot 3 of 4; with a hash strategy that
  returns the bucket count itself, both operations leave the array.
\<close>

theorem bucket_access_in_bounds_witness:
  "Hash_Table_Insert example_table (empty_memory []) (312, 1) ''cat'' \<noteq>
     Some (Inl BucketIndexOutOfBounds) \<and>
   Hash_Table_Match example_table (empty_memory []) ''cat'' 0 1 \<noteq>
     Some (Inl BucketIndexOutOfBounds) \<and>
   Hash_Table_Insert (example_table\<lparr>hash_function := \<lambda>pattern max_number. max_number\<rparr>)
     (empty_memory []) (312, 1) ''cat'' = Some (Inl BucketIndexOutOfBounds) \<and>
   Hash_Table_Match (example_table\<lparr>hash_function := \<lambda>pattern max_number. max_number\<rparr>)
     (empty_memory []) ''cat'' 0 1 = Some (Inl BucketIndexOutOfBounds)"
  using bucket_access_in_bounds [of example_table "''cat''" "empty_memory []" "(312, 1)" 0 1]
    bucket_access_in_bounds [of "example_table\<lparr>hash_function := \<lambda>pattern max_number. max_number\<rparr>"
      "''cat''" "empty_memory []" "(312, 1)" 0 1]
  by (simp add: example_table_def example_hash_def)

end
